theory Spec2Isabelle
  imports Main "HOL-Library.Sublist"
begin

section \<open>Python strings\<close>

text \<open>
  A Python \<open>str\<close> is a sequence of Unicode code points, and \<open>len\<close> counts code points.
  The crawler tests characters against the block U+0400..U+04FF, so a string is modelled
  as the list of its code points. \<open>str_lit\<close> writes an ASCII literal of the source.
\<close>

type_synonym ustr = "nat list"

definition str_lit :: "string \<Rightarrow> ustr" where
  "str_lit s = map of_char s"

text \<open>\<open>s.startswith(p)\<close>, \<open>s.endswith(p)\<close> and \<open>p in s\<close>.\<close>

definition startswith :: "ustr \<Rightarrow> ustr \<Rightarrow> bool" where
  "startswith s p = (take (length p) s = p)"

definition endswith :: "ustr \<Rightarrow> ustr \<Rightarrow> bool" where
  "endswith s p = (length p \<le> length s \<and> drop (length s - length p) s = p)"

fun contains :: "ustr \<Rightarrow> ustr \<Rightarrow> bool" where
  "contains [] p = (p = [])"
| "contains (c # cs) p = (startswith (c # cs) p \<or> contains cs p)"

text \<open>\<open>str(n)\<close> of a non-negative integer, and the format \<open>{n:04d}\<close>: the decimal digits,
  padded with zeros on the left to a width of at least four.\<close>

fun str_nat :: "nat \<Rightarrow> ustr" where
  "str_nat n = (if n < 10 then [48 + n] else str_nat (n div 10) @ [48 + n mod 10])"

declare str_nat.simps [simp del]

definition format_04d :: "nat \<Rightarrow> ustr" where
  "format_04d n = replicate (4 - length (str_nat n)) 48 @ str_nat n"

text \<open>Truthiness of what \<open>fetch_page\<close> returns: \<open>None\<close> and the empty string are false.\<close>

fun truthy :: "ustr option \<Rightarrow> bool" where
  "truthy None = False"
| "truthy (Some s) = (s \<noteq> [])"

section \<open>The libraries the crawler calls\<close>

text \<open>
  The HTML parser (BeautifulSoup over \<open>html.parser\<close>), \<open>urllib.parse\<close> and Unicode
  lower-casing are not part of the repository. They are parameters: a record of the
  calls the source makes, over an abstract type \<open>'s\<close> of soups and \<open>'t\<close> of tags.
  \<^item> \<open>BeautifulSoup h\<close> is \<open>BeautifulSoup(h, 'html.parser')\<close>;
  \<^item> \<open>soup_call s names\<close> is \<open>s(names)\<close>, the tags with one of the names;
  \<^item> \<open>decompose t s\<close> is the soup after \<open>t.decompose()\<close>;
  \<^item> \<open>get_text s\<close> is \<open>s.get_text(strip=True)\<close>;
  \<^item> \<open>find_all_a s\<close> lists \<open>a_tag['href']\<close> for the tags of
    \<open>s.find_all('a', href=True)\<close>, in document order;
  \<^item> \<open>urljoin\<close>, \<open>urlparse\<close> are those of \<open>urllib.parse\<close>; \<open>str_lower\<close> is \<open>str.lower\<close>.
  The source catches no exception of these calls: a call that raises (\<open>urlparse\<close> on a
  malformed host, say) ends the run, and such runs are not modelled.
\<close>

record ParseResult =
  scheme :: ustr
  netloc :: ustr
  path :: ustr
  params :: ustr
  query :: ustr
  fragment :: ustr

record ('s, 't) library =
  BeautifulSoup :: "ustr \<Rightarrow> 's"
  soup_call :: "'s \<Rightarrow> string list \<Rightarrow> 't list"
  decompose :: "'t \<Rightarrow> 's \<Rightarrow> 's"
  get_text :: "'s \<Rightarrow> ustr"
  find_all_a :: "'s \<Rightarrow> ustr list"
  urljoin :: "ustr \<Rightarrow> ustr \<Rightarrow> ustr"
  urlparse :: "ustr \<Rightarrow> ParseResult"
  str_lower :: "ustr \<Rightarrow> ustr"

section \<open>The content classifier\<close>

text \<open>\<open>cyrillic_pattern.search(text)\<close>, for the character class from U+0400 to U+04FF:
  some character of the text lies in the Cyrillic block.\<close>

definition cyrillic :: "nat \<Rightarrow> bool" where
  "cyrillic c = (0x400 \<le> c \<and> c \<le> 0x4FF)"

fun cyrillic_pattern_search :: "ustr \<Rightarrow> bool" where
  "cyrillic_pattern_search [] = False"
| "cyrillic_pattern_search (c # cs) = (cyrillic c \<or> cyrillic_pattern_search cs)"

text \<open>\<open>re.compile(r'[a-zA-Z]{3,}').search(text)\<close>: a match starts at a position exactly
  when the three characters from there on are ASCII letters.\<close>

definition latin :: "nat \<Rightarrow> bool" where
  "latin c = ((97 \<le> c \<and> c \<le> 122) \<or> (65 \<le> c \<and> c \<le> 90))"

fun latin_pattern_search :: "ustr \<Rightarrow> bool" where
  "latin_pattern_search (a # b # c # cs) =
     ((latin a \<and> latin b \<and> latin c) \<or> latin_pattern_search (b # c # cs))"
| "latin_pattern_search cs = False"

text \<open>The local variable \<open>text\<close> of \<open>is_text_page\<close>: the soup is parsed, every
  script, style, meta and link tag found is decomposed in turn, and the text is read.\<close>

definition page_text :: "('s, 't) library \<Rightarrow> ustr \<Rightarrow> ustr" where
  "page_text L html_content =
     (let soup = BeautifulSoup L html_content;
          soup = fold (decompose L) (soup_call L soup [''script'', ''style'', ''meta'', ''link'']) soup
      in get_text L soup)"

text \<open>\<open>is_text_page\<close>; the argument is \<open>None\<close> or a string.\<close>

definition is_text_page :: "('s, 't) library \<Rightarrow> ustr option \<Rightarrow> bool" where
  "is_text_page L html_content =
     (if \<not> truthy html_content then False
      else
        let text = page_text L (the html_content) in
        if length text < 100 then False
        else if \<not> cyrillic_pattern_search text then
          (if \<not> latin_pattern_search text then False else True)
        else True)"

section \<open>Configuration\<close>

text \<open>The module-level constants. \<open>REQUEST_DELAY\<close> only paces the requests
  (\<open>time.sleep\<close>); neither the pause nor the progress output is modelled.\<close>

record config =
  BASE_URL :: ustr
  NEWS_URL :: ustr
  OUTPUT_DIR :: ustr
  INDEX_FILE :: ustr
  MIN_PAGES :: nat

definition settings :: config where
  "settings = \<lparr>BASE_URL = str_lit ''https://media.kpfu.ru'',
               NEWS_URL = str_lit ''https://media.kpfu.ru/news'',
               OUTPUT_DIR = str_lit ''crawl_output'',
               INDEX_FILE = str_lit ''index.txt'',
               MIN_PAGES = 100\<rparr>"

section \<open>The link extractor\<close>

definition blocked_extensions :: "ustr list" where
  "blocked_extensions = map str_lit [''.js'', ''.css'', ''.png'', ''.jpg'', ''.jpeg'', ''.gif'',
     ''.svg'', ''.ico'', ''.pdf'', ''.doc'', ''.docx'']"

text \<open>\<open>any(path.endswith(ext) for ext in exts)\<close>.\<close>

fun any_endswith :: "ustr \<Rightarrow> ustr list \<Rightarrow> bool" where
  "any_endswith p [] = False"
| "any_endswith p (ext # exts) = (endswith p ext \<or> any_endswith p exts)"

text \<open>One round of the loop over the anchors: \<open>links\<close> before the round, and after it.
  The path is lower-cased once when it is bound and once more in the \<open>rss\<close> test, as in
  the source; the query is parsed there and not used.\<close>

definition visit_href :: "('s, 't) library \<Rightarrow> config \<Rightarrow> ustr \<Rightarrow> ustr set \<Rightarrow> ustr set" where
  "visit_href L C href links =
     (if startswith href (str_lit ''#'') \<or> startswith href (str_lit ''javascript:'') then links
      else
        let full_url = urljoin L (BASE_URL C) href in
        if netloc (urlparse L full_url) \<noteq> netloc (urlparse L (BASE_URL C)) then links
        else
          let parsed = urlparse L full_url;
              path_lower = str_lower L (path parsed)
          in
          if any_endswith path_lower blocked_extensions then links
          else if contains (str_lower L path_lower) (str_lit ''rss'') then links
          else if path_lower = str_lit ''/news'' \<or> path_lower = str_lit ''/news/'' then links
          else if contains path_lower (str_lit ''/news'') then insert full_url links
          else links)"

definition extract_article_links :: "('s, 't) library \<Rightarrow> config \<Rightarrow> ustr \<Rightarrow> ustr set" where
  "extract_article_links L C html_content =
     (let soup = BeautifulSoup L html_content
      in fold (visit_href L C) (find_all_a L soup) {})"

section \<open>The outside world\<close>

text \<open>
  \<open>requests.get\<close> either raises a \<open>RequestException\<close> or returns a response with a
  status code and a text. \<open>raise_for_status\<close> raises \<open>HTTPError\<close>, a
  \<open>RequestException\<close>, for the client and server error codes 400 to 599 and for no
  other; the predicate says whether it raises. An exception of \<open>requests.get\<close> that is
  no \<open>RequestException\<close> is not caught by the source and is not modelled.
\<close>

datatype request_exception = ConnectionError | Timeout | OtherRequestException

datatype get_result = Raised request_exception | Response nat ustr

definition raise_for_status :: "nat \<Rightarrow> bool" where
  "raise_for_status status_code = (400 \<le> status_code \<and> status_code < 600)"

text \<open>
  The network and the disk are a state of an abstract type \<open>'w\<close> with the operations the
  source calls on it: one GET, \<open>os.makedirs(exist_ok=True)\<close>, and writing a whole
  text file (\<open>None\<close> when it raises \<open>OSError\<close>). \<open>script_dir\<close> is the directory of
  the script, and \<open>iter_set\<close> the order in which Python iterates over a set.
\<close>

record 'w system =
  requests_get :: "ustr \<Rightarrow> 'w \<Rightarrow> get_result \<times> 'w"
  os_makedirs :: "ustr \<Rightarrow> 'w \<Rightarrow> 'w option"
  write_file :: "ustr \<Rightarrow> ustr \<Rightarrow> 'w \<Rightarrow> 'w option"
  script_dir :: ustr
  iter_set :: "ustr set \<Rightarrow> ustr list"

text \<open>The world of a run: the outside, every GET made so far with what came back, and
  every file written so far with its content, oldest first.\<close>

record 'w world =
  outside :: 'w
  requested :: "(ustr \<times> get_result) list"
  written :: "(ustr \<times> ustr) list"

datatype error = OSError

section \<open>Fetching and saving\<close>

text \<open>What the \<open>try\<close> block makes of the outcome of the GET.\<close>

fun response_text :: "get_result \<Rightarrow> ustr option" where
  "response_text (Raised e) = None"
| "response_text (Response status_code text) =
     (if raise_for_status status_code then None else Some text)"

definition fetch_page :: "'w system \<Rightarrow> ustr \<Rightarrow> 'w world \<Rightarrow> ustr option \<times> 'w world" where
  "fetch_page S url w =
     (case requests_get S url (outside w) of
        (response, out) \<Rightarrow>
          (response_text response,
           w\<lparr>outside := out, requested := requested w @ [(url, response)]\<rparr>))"

text \<open>\<open>os.path.join\<close> of two components (POSIX).\<close>

definition os_path_join :: "ustr \<Rightarrow> ustr \<Rightarrow> ustr" where
  "os_path_join a b =
     (if startswith b (str_lit ''/'') then b
      else if a = [] \<or> endswith a (str_lit ''/'') then a @ b
      else a @ str_lit ''/'' @ b)"

definition save_page :: "'w system \<Rightarrow> config \<Rightarrow> ustr \<Rightarrow> ustr \<Rightarrow> 'w world \<Rightarrow> error + ustr \<times> 'w world" where
  "save_page S C content filename w =
     (let filepath = os_path_join (OUTPUT_DIR C) filename in
      case write_file S filepath content (outside w) of
        None \<Rightarrow> Inl OSError
      | Some out \<Rightarrow> Inr (filepath, w\<lparr>outside := out, written := written w @ [(filepath, content)]\<rparr>))"

section \<open>The crawl\<close>

text \<open>The local variables of \<open>crawl\<close> that change (\<open>visited_urls\<close> is never used),
  and the world.\<close>

record 'w crawl_state =
  article_urls :: "ustr set"
  saved_pages :: "(nat \<times> ustr \<times> ustr) list"
  page_counter :: nat
  index_entries :: "ustr list"
  world :: "'w world"

definition paginated_url :: "config \<Rightarrow> nat \<Rightarrow> ustr" where
  "paginated_url C page_num = NEWS_URL C @ str_lit ''?page='' @ str_nat page_num"

text \<open>The pagination loop over the page numbers still to try; both \<open>break\<close>s leave it.\<close>

fun pagination :: "('s, 't) library \<Rightarrow> 'w system \<Rightarrow> config \<Rightarrow> nat list \<Rightarrow> 'w crawl_state \<Rightarrow> 'w crawl_state" where
  "pagination L S C [] st = st"
| "pagination L S C (page_num # rest) st =
     (case fetch_page S (paginated_url C page_num) (world st) of
        (html, w) \<Rightarrow>
          if \<not> truthy html then st\<lparr>world := w\<rparr>
          else
            let new_links = extract_article_links L C (the html) in
            if new_links = {} then st\<lparr>world := w\<rparr>
            else pagination L S C rest
                   (st\<lparr>article_urls := article_urls st \<union> new_links, world := w\<rparr>))"

definition page_filename :: "nat \<Rightarrow> ustr" where
  "page_filename n = str_lit ''page_'' @ format_04d n @ str_lit ''.txt''"

definition index_entry :: "nat \<Rightarrow> ustr \<Rightarrow> ustr" where
  "index_entry n url = str_nat n @ [9] @ url"

text \<open>The download loop over the URLs still to visit, in the order of iteration. A failed
  write of a page ends the run with the exception.\<close>

fun frontier :: "('s, 't) library \<Rightarrow> 'w system \<Rightarrow> config \<Rightarrow> ustr list \<Rightarrow> 'w crawl_state \<Rightarrow> error + 'w crawl_state" where
  "frontier L S C [] st = Inr st"
| "frontier L S C (url # rest) st =
     (if length (saved_pages st) \<ge> MIN_PAGES C then Inr st
      else
        case fetch_page S url (world st) of
          (html, w) \<Rightarrow>
            if \<not> truthy html then frontier L S C rest (st\<lparr>world := w\<rparr>)
            else if \<not> is_text_page L html then frontier L S C rest (st\<lparr>world := w\<rparr>)
            else
              let page_counter' = page_counter st + 1;
                  filename = page_filename page_counter'
              in
              case save_page S C (the html) filename w of
                Inl e \<Rightarrow> Inl e
              | Inr (filepath, w') \<Rightarrow>
                  frontier L S C rest
                    (st\<lparr>page_counter := page_counter',
                        saved_pages := saved_pages st @ [(page_counter', url, filename)],
                        index_entries := index_entries st @ [index_entry page_counter' url],
                        world := w'\<rparr>))"

text \<open>The index file: the two header lines, then one write of the entry and a line feed
  for each entry.\<close>

definition index_header :: ustr where
  "index_header = str_lit ''# File Number'' @ [9] @ str_lit ''URL'' @ [10]
                  @ str_lit ''#'' @ replicate 60 61 @ [10]"

definition index_text :: "ustr list \<Rightarrow> ustr" where
  "index_text entries = index_header @ concat (map (\<lambda>entry. entry @ [10]) entries)"

definition write_index :: "'w system \<Rightarrow> config \<Rightarrow> ustr list \<Rightarrow> 'w world \<Rightarrow> error + 'w world" where
  "write_index S C entries w =
     (let index_path = os_path_join (script_dir S) (INDEX_FILE C) in
      case write_file S index_path (index_text entries) (outside w) of
        None \<Rightarrow> Inl OSError
      | Some out \<Rightarrow>
          Inr (w\<lparr>outside := out, written := written w @ [(index_path, index_text entries)]\<rparr>))"

text \<open>The state in which the download loop starts: after the directory is made and the
  listing pages are walked.\<close>

definition collect :: "('s, 't) library \<Rightarrow> 'w system \<Rightarrow> config \<Rightarrow> 'w \<Rightarrow> 'w crawl_state" where
  "collect L S C out =
     (let st = \<lparr>article_urls = {}, saved_pages = [], page_counter = 0, index_entries = [],
                world = \<lparr>outside = out, requested = [], written = []\<rparr>\<rparr>
      in
      case fetch_page S (NEWS_URL C) (world st) of
        (html, w) \<Rightarrow>
          let st = st\<lparr>world := w\<rparr>;
              st = (if truthy html
                    then st\<lparr>article_urls := article_urls st \<union> extract_article_links L C (the html)\<rparr>
                    else st);
              max_pages_to_try = 30
          in pagination L S C [1..<max_pages_to_try + 1] st)"

text \<open>\<open>crawl\<close>: the number it returns, with the final state.\<close>

definition crawl :: "('s, 't) library \<Rightarrow> 'w system \<Rightarrow> config \<Rightarrow> 'w \<Rightarrow> error + nat \<times> 'w crawl_state" where
  "crawl L S C out0 =
     (case os_makedirs S (OUTPUT_DIR C) out0 of
        None \<Rightarrow> Inl OSError
      | Some out \<Rightarrow>
          let st = collect L S C out in
          case frontier L S C (iter_set S (article_urls st)) st of
            Inl e \<Rightarrow> Inl e
          | Inr st \<Rightarrow>
              (case write_index S C (index_entries st) (world st) of
                 Inl e \<Rightarrow> Inl e
               | Inr w \<Rightarrow> Inr (length (saved_pages st), st\<lparr>world := w\<rparr>)))"

section \<open>Notions used in the properties\<close>

text \<open>Whether the round for an anchor adds its URL, read off the round itself.\<close>

definition keeps :: "('s, 't) library \<Rightarrow> config \<Rightarrow> ustr \<Rightarrow> bool" where
  "keeps L C href = (visit_href L C href {} \<noteq> {})"

text \<open>The number a string of decimal digits stands for.\<close>

definition digits_value :: "ustr \<Rightarrow> nat" where
  "digits_value ds = foldl (\<lambda>a c. 10 * a + (c - 48)) 0 ds"

text \<open>Whether the pagination loop ends after a page whose GET had the given outcome:
  the fetch gave nothing, or no link was extracted from what it gave.\<close>

definition page_ends :: "('s, 't) library \<Rightarrow> config \<Rightarrow> get_result \<Rightarrow> bool" where
  "page_ends L C r =
     (\<not> truthy (response_text r) \<or> extract_article_links L C (the (response_text r)) = {})"

text \<open>The invariant of the download loop: the counter is the number of saved pages,
  the saved pages carry the numbers from 1 on and the file names of their numbers, there
  is one index entry per saved page, and the files written are the page files.\<close>

definition archive_ok :: "config \<Rightarrow> 'w crawl_state \<Rightarrow> bool" where
  "archive_ok C st =
     (page_counter st = length (saved_pages st)
      \<and> map fst (saved_pages st) = [1..<Suc (length (saved_pages st))]
      \<and> map (\<lambda>(n, url, filename). filename) (saved_pages st)
          = map page_filename [1..<Suc (length (saved_pages st))]
      \<and> index_entries st = map (\<lambda>(n, url, filename). index_entry n url) (saved_pages st)
      \<and> map fst (written (world st))
          = map (\<lambda>(n, url, filename). os_path_join (OUTPUT_DIR C) filename) (saved_pages st))"

text \<open>The number of line feeds of a text: its number of lines when every line ends
  with one.\<close>

definition line_count :: "ustr \<Rightarrow> nat" where
  "line_count s = length (filter (\<lambda>c. c = 10) s)"

section \<open>Reference behaviour for concrete runs\<close>

text \<open>
  Concrete runs need concrete collaborators. The functions below follow
  \<open>urllib/parse.py\<close> of CPython 3.11 on \<open>str\<close> arguments: \<open>urlsplit\<close>, \<open>urlparse\<close>,
  \<open>urlunparse\<close> and \<open>urljoin\<close>. The checks of \<open>urlsplit\<close> that raise \<open>ValueError\<close>
  (brackets in the host, a non-ASCII host that changes under NFKC) are left out, so the
  functions stand for the library on URLs with an ASCII host without brackets.
\<close>

text \<open>\<open>s.split(d)\<close>, \<open>d.join(xs)\<close> and \<open>s.partition(d)\<close> without the separator.\<close>

fun split_on :: "nat \<Rightarrow> ustr \<Rightarrow> ustr list" where
  "split_on d [] = [[]]"
| "split_on d (c # cs) =
     (if c = d then [] # split_on d cs
      else (case split_on d cs of [] \<Rightarrow> [[c]] | w # ws \<Rightarrow> (c # w) # ws))"

fun join_with :: "nat \<Rightarrow> ustr list \<Rightarrow> ustr" where
  "join_with d [] = []"
| "join_with d [x] = x"
| "join_with d (x # y # ys) = x @ d # join_with d (y # ys)"

definition partition1 :: "nat \<Rightarrow> ustr \<Rightarrow> ustr \<times> ustr" where
  "partition1 d s = (takeWhile (\<lambda>c. c \<noteq> d) s, drop 1 (dropWhile (\<lambda>c. c \<noteq> d) s))"

definition ascii_lower :: "ustr \<Rightarrow> ustr" where
  "ascii_lower s = map (\<lambda>c. if 65 \<le> c \<and> c \<le> 90 then c + 32 else c) s"

definition scheme_chars :: ustr where
  "scheme_chars = str_lit ''abcdefghijklmnopqrstuvwxyzABCDEFGHIJKLMNOPQRSTUVWXYZ0123456789+-.''"

definition uses_relative :: "ustr list" where
  "uses_relative = map str_lit ['''', ''ftp'', ''http'', ''gopher'', ''nntp'', ''imap'',
     ''wais'', ''file'', ''https'', ''shttp'', ''mms'', ''prospero'', ''rtsp'', ''rtsps'',
     ''rtspu'', ''sftp'', ''svn'', ''svn+ssh'', ''ws'', ''wss'']"

definition uses_netloc :: "ustr list" where
  "uses_netloc = map str_lit ['''', ''ftp'', ''http'', ''gopher'', ''nntp'', ''telnet'',
     ''imap'', ''wais'', ''file'', ''mms'', ''https'', ''shttp'', ''snews'', ''prospero'',
     ''rtsp'', ''rtsps'', ''rtspu'', ''rsync'', ''svn'', ''svn+ssh'', ''sftp'', ''nfs'',
     ''git'', ''git+ssh'', ''ws'', ''wss'']"

definition uses_params :: "ustr list" where
  "uses_params = map str_lit ['''', ''ftp'', ''hdl'', ''prospero'', ''http'', ''imap'',
     ''https'', ''shttp'', ''rtsp'', ''rtsps'', ''rtspu'', ''sip'', ''sips'', ''mms'',
     ''sftp'', ''tel'']"

text \<open>\<open>urlsplit(url, scheme)\<close>: leading C0 controls and spaces and every tab, carriage
  return and line feed are dropped; then the scheme, the network location, the fragment
  and the query are cut off in this order. Code points: 58 colon, 47 slash, 63 question
  mark, 35 hash, 59 semicolon, 46 dot.\<close>

definition ref_urlsplit :: "ustr \<Rightarrow> ustr \<Rightarrow> ParseResult" where
  "ref_urlsplit url0 scheme0 =
     (let url = filter (\<lambda>c. c \<notin> {9, 13, 10}) (dropWhile (\<lambda>c. c \<le> 32) url0);
          i = length (takeWhile (\<lambda>c. c \<noteq> 58) url);
          has_scheme = (58 \<in> set url \<and> i > 0 \<and> latin (hd url)
                        \<and> list_all (\<lambda>c. c \<in> set scheme_chars) (take i url));
          scheme1 = (if has_scheme then ascii_lower (take i url) else scheme0);
          url = (if has_scheme then drop (i + 1) url else url);
          has_netloc = (take 2 url = [47, 47]);
          netloc1 = (if has_netloc then takeWhile (\<lambda>c. c \<notin> {47, 63, 35}) (drop 2 url) else []);
          url = (if has_netloc then dropWhile (\<lambda>c. c \<notin> {47, 63, 35}) (drop 2 url) else url);
          fragment1 = snd (partition1 35 url);
          url = fst (partition1 35 url);
          query1 = snd (partition1 63 url);
          url = fst (partition1 63 url)
      in \<lparr>scheme = scheme1, netloc = netloc1, path = url, params = [], query = query1,
          fragment = fragment1\<rparr>)"

text \<open>\<open>_splitparams\<close>: the parameters follow the first semicolon of the last segment.\<close>

definition splitparams :: "ustr \<Rightarrow> ustr \<times> ustr" where
  "splitparams url =
     (let segs = split_on 47 url; l = last segs in
      if 59 \<in> set l
      then (join_with 47 (butlast segs @ [fst (partition1 59 l)]), snd (partition1 59 l))
      else (url, []))"

definition ref_urlparse2 :: "ustr \<Rightarrow> ustr \<Rightarrow> ParseResult" where
  "ref_urlparse2 url scheme0 =
     (let r = ref_urlsplit url scheme0 in
      if scheme r \<in> set uses_params \<and> 59 \<in> set (path r)
      then r\<lparr>path := fst (splitparams (path r)), params := snd (splitparams (path r))\<rparr>
      else r)"

definition ref_urlparse :: "ustr \<Rightarrow> ParseResult" where
  "ref_urlparse url = ref_urlparse2 url []"

definition ref_urlunparse :: "ParseResult \<Rightarrow> ustr" where
  "ref_urlunparse r =
     (let url = (if params r \<noteq> [] then path r @ 59 # params r else path r);
          url = (if netloc r \<noteq> [] \<or> (scheme r \<noteq> [] \<and> scheme r \<in> set uses_netloc)
                    \<or> take 2 url = [47, 47]
                 then [47, 47] @ netloc r
                      @ (if url \<noteq> [] \<and> take 1 url \<noteq> [47] then 47 # url else url)
                 else url);
          url = (if scheme r \<noteq> [] then scheme r @ 58 # url else url);
          url = (if query r \<noteq> [] then url @ 63 # query r else url);
          url = (if fragment r \<noteq> [] then url @ 35 # fragment r else url)
      in url)"

text \<open>The loop of \<open>urljoin\<close> over the path segments: \<open>..\<close> pops, \<open>.\<close> is skipped.\<close>

fun resolve :: "ustr list \<Rightarrow> ustr list \<Rightarrow> ustr list" where
  "resolve [] acc = acc"
| "resolve (seg # segs) acc =
     (if seg = [46, 46] then resolve segs (butlast acc)
      else if seg = [46] then resolve segs acc
      else resolve segs (acc @ [seg]))"

definition ref_urljoin :: "ustr \<Rightarrow> ustr \<Rightarrow> ustr" where
  "ref_urljoin base url =
     (if base = [] then url
      else if url = [] then base
      else
        let b = ref_urlparse2 base [];
            u = ref_urlparse2 url (scheme b)
        in if scheme u \<noteq> scheme b \<or> scheme u \<notin> set uses_relative then url
           else if scheme u \<in> set uses_netloc \<and> netloc u \<noteq> [] then ref_urlunparse u
           else
             let u = (if scheme u \<in> set uses_netloc then u\<lparr>netloc := netloc b\<rparr> else u) in
             if path u = [] \<and> params u = []
             then ref_urlunparse (u\<lparr>path := path b, params := params b,
                                    query := (if query u = [] then query b else query u)\<rparr>)
             else
               let base_parts = split_on 47 (path b);
                   base_parts = (if last base_parts \<noteq> [] then butlast base_parts else base_parts);
                   segments =
                     (if take 1 (path u) = [47] then split_on 47 (path u)
                      else
                        let segs = base_parts @ split_on 47 (path u) in
                        if 2 \<le> length segs
                        then hd segs # filter (\<lambda>s. s \<noteq> []) (butlast (tl segs)) @ [last segs]
                        else segs);
                   resolved_path = resolve segments [];
                   resolved_path =
                     (if last segments = [46] \<or> last segments = [46, 46]
                      then resolved_path @ [[]] else resolved_path);
                   joined = join_with 47 resolved_path
               in ref_urlunparse (u\<lparr>path := (if joined = [] then [47] else joined)\<rparr>))"

text \<open>
  The parser is given by what it yields on each document: the \<open>href\<close> values of its
  anchors in document order, and the text that is left once the script, style, meta and
  link tags are gone (so there are no such tags to decompose). Lower-casing is that of
  ASCII.
\<close>

datatype doc = Doc (doc_hrefs: "ustr list") (doc_text: ustr)

definition ref_library :: "(ustr \<Rightarrow> doc) \<Rightarrow> (doc, unit) library" where
  "ref_library parse =
     \<lparr>BeautifulSoup = parse, soup_call = (\<lambda>soup names. []), decompose = (\<lambda>tag soup. soup),
      get_text = doc_text, find_all_a = doc_hrefs, urljoin = ref_urljoin,
      urlparse = ref_urlparse, str_lower = ascii_lower\<rparr>"

text \<open>A parser given by a table from HTML texts to documents; a text that is not in the
  table has no anchors and no text.\<close>

definition ref_parse :: "(ustr \<times> doc) list \<Rightarrow> ustr \<Rightarrow> doc" where
  "ref_parse table html = (case map_of table html of Some d \<Rightarrow> d | None \<Rightarrow> Doc [] [])"

text \<open>
  A site is a table from URLs to the outcome of a GET; a URL that is not in the table
  gives status 404. The disk takes every write. A set is iterated in the order of a
  given list of its members.
\<close>

definition ref_system :: "(ustr \<times> get_result) list \<Rightarrow> ustr list \<Rightarrow> unit system" where
  "ref_system site order =
     \<lparr>requests_get =
        (\<lambda>url out. (case map_of site url of Some r \<Rightarrow> r | None \<Rightarrow> Response 404 [], out)),
      os_makedirs = (\<lambda>dir out. Some out),
      write_file = (\<lambda>filepath content out. Some out),
      script_dir = str_lit ''/srv/crawler'',
      iter_set = (\<lambda>urls. filter (\<lambda>url. url \<in> urls) order)\<rparr>"

definition empty_world :: "unit world" where
  "empty_world = \<lparr>outside = (), requested = [], written = []\<rparr>"

section \<open>Small inputs\<close>

text \<open>Texts for the classifier: the Russian word for a piece of news followed by digits,
  two-letter words only, and a three-letter word followed by digits.\<close>

definition cyrillic_text :: ustr where
  "cyrillic_text = [1053, 1086, 1074, 1086, 1089, 1090, 1100] @ replicate 100 49"

definition two_letter_text :: ustr where
  "two_letter_text = concat (replicate 12 (str_lit ''ab cd ef '')) @ str_lit ''ab''"

definition three_letter_text :: ustr where
  "three_letter_text = str_lit ''abc'' @ replicate 100 49"

text \<open>A listing page with an anchor to the plain-HTTP site, one with an upper-case
  path, and two anchors that the extractor drops.\<close>

definition mixed_listing :: ustr where
  "mixed_listing = str_lit ''<a href=http://media.kpfu.ru/news/1>1</a><a href=/NEWS/2>2</a><a href=/news/>all</a><a href=#top>up</a>''"

definition mixed_library :: "(doc, unit) library" where
  "mixed_library = ref_library (ref_parse
     [(mixed_listing,
       Doc [str_lit ''http://media.kpfu.ru/news/1'', str_lit ''/NEWS/2'', str_lit ''/news/'',
            str_lit ''#top'']
           (str_lit ''12allup''))])"

text \<open>A site where one URL times out, one is missing, one answers 300 and one 200.\<close>

definition status_site :: "(ustr \<times> get_result) list" where
  "status_site =
     [(str_lit ''https://media.kpfu.ru/news/slow'', Raised Timeout),
      (str_lit ''https://media.kpfu.ru/news/gone'', Response 404 (str_lit ''Not Found'')),
      (str_lit ''https://media.kpfu.ru/news/choice'', Response 300 (str_lit ''Multiple Choices'')),
      (str_lit ''https://media.kpfu.ru/news/1'', Response 200 (str_lit ''<p>text</p>''))]"

section \<open>Two concrete runs\<close>

text \<open>
  A small site. The listing and its pages 1 and 2 show the same five articles, page 3
  shows none; every article is a page of Russian text. The target is 10 pages.
\<close>

definition listing_html :: ustr where
  "listing_html = str_lit ''<a href=/news/1>1</a><a href=/news/2>2</a><a href=/news/3>3</a><a href=/news/4>4</a><a href=/news/5>5</a>''"

definition last_html :: ustr where
  "last_html = str_lit ''<p>no more news</p>''"

definition article_html :: ustr where
  "article_html = str_lit ''<h1>news</h1><p>...</p>''"

definition five_library :: "(doc, unit) library" where
  "five_library = ref_library (ref_parse
     [(listing_html,
       Doc [str_lit ''/news/1'', str_lit ''/news/2'', str_lit ''/news/3'', str_lit ''/news/4'',
            str_lit ''/news/5''] (str_lit ''12345'')),
      (last_html, Doc [] (str_lit ''no more news'')),
      (article_html, Doc [] cyrillic_text)])"

definition five_site :: "(ustr \<times> get_result) list" where
  "five_site =
     [(str_lit ''https://media.kpfu.ru/news'', Response 200 listing_html),
      (str_lit ''https://media.kpfu.ru/news?page=1'', Response 200 listing_html),
      (str_lit ''https://media.kpfu.ru/news?page=2'', Response 200 listing_html),
      (str_lit ''https://media.kpfu.ru/news?page=3'', Response 200 last_html),
      (str_lit ''https://media.kpfu.ru/news/1'', Response 200 article_html),
      (str_lit ''https://media.kpfu.ru/news/2'', Response 200 article_html),
      (str_lit ''https://media.kpfu.ru/news/3'', Response 200 article_html),
      (str_lit ''https://media.kpfu.ru/news/4'', Response 200 article_html),
      (str_lit ''https://media.kpfu.ru/news/5'', Response 200 article_html)]"

definition five_order :: "ustr list" where
  "five_order =
     [str_lit ''https://media.kpfu.ru/news/3'', str_lit ''https://media.kpfu.ru/news/1'',
      str_lit ''https://media.kpfu.ru/news/5'', str_lit ''https://media.kpfu.ru/news/2'',
      str_lit ''https://media.kpfu.ru/news/4'']"

definition five_system :: "unit system" where
  "five_system = ref_system five_site five_order"

definition five_config :: config where
  "five_config = settings\<lparr>MIN_PAGES := 10\<rparr>"

text \<open>
  A site whose listing has one anchor, to the plain-HTTP site, with a line feed in its
  path (\<open>href=http://media.kpfu.ru/news/a&#10;b\<close>); the URL serves a page of text.
\<close>

definition broken_html :: ustr where
  "broken_html = str_lit ''<a href=http://media.kpfu.ru/news/a&#10;b>x</a>''"

definition broken_url :: ustr where
  "broken_url = str_lit ''http://media.kpfu.ru/news/a'' @ [10] @ str_lit ''b''"

definition broken_library :: "(doc, unit) library" where
  "broken_library = ref_library (ref_parse
     [(broken_html, Doc [broken_url] (str_lit ''x'')),
      (article_html, Doc [] cyrillic_text)])"

definition broken_system :: "unit system" where
  "broken_system = ref_system
     [(str_lit ''https://media.kpfu.ru/news'', Response 200 broken_html),
      (broken_url, Response 200 article_html)]
     [broken_url]"

text \<open>What the first run is expected to leave: the walker's log and state, and the
  final state.\<close>

definition five_urls :: "ustr set" where
  "five_urls = set five_order"

definition five_listing_log :: "(ustr \<times> get_result) list" where
  "five_listing_log =
     [(str_lit ''https://media.kpfu.ru/news'', Response 200 listing_html),
      (str_lit ''https://media.kpfu.ru/news?page=1'', Response 200 listing_html),
      (str_lit ''https://media.kpfu.ru/news?page=2'', Response 200 listing_html),
      (str_lit ''https://media.kpfu.ru/news?page=3'', Response 200 last_html)]"

definition five_collected :: "unit crawl_state" where
  "five_collected =
     \<lparr>article_urls = five_urls, saved_pages = [], page_counter = 0, index_entries = [],
      world = \<lparr>outside = (), requested = five_listing_log, written = []\<rparr>\<rparr>"

definition five_index_text :: ustr where
  "five_index_text =
     str_lit ''# File Number'' @ [9] @ str_lit ''URL'' @ [10]
     @ str_lit ''#============================================================'' @ [10]
     @ str_lit ''1'' @ [9] @ str_lit ''https://media.kpfu.ru/news/3'' @ [10]
     @ str_lit ''2'' @ [9] @ str_lit ''https://media.kpfu.ru/news/1'' @ [10]
     @ str_lit ''3'' @ [9] @ str_lit ''https://media.kpfu.ru/news/5'' @ [10]
     @ str_lit ''4'' @ [9] @ str_lit ''https://media.kpfu.ru/news/2'' @ [10]
     @ str_lit ''5'' @ [9] @ str_lit ''https://media.kpfu.ru/news/4'' @ [10]"

definition five_final :: "unit crawl_state" where
  "five_final =
     \<lparr>article_urls = five_urls,
      saved_pages =
        [(1, str_lit ''https://media.kpfu.ru/news/3'', str_lit ''page_0001.txt''),
         (2, str_lit ''https://media.kpfu.ru/news/1'', str_lit ''page_0002.txt''),
         (3, str_lit ''https://media.kpfu.ru/news/5'', str_lit ''page_0003.txt''),
         (4, str_lit ''https://media.kpfu.ru/news/2'', str_lit ''page_0004.txt''),
         (5, str_lit ''https://media.kpfu.ru/news/4'', str_lit ''page_0005.txt'')],
      page_counter = 5,
      index_entries =
        [str_lit ''1'' @ [9] @ str_lit ''https://media.kpfu.ru/news/3'',
         str_lit ''2'' @ [9] @ str_lit ''https://media.kpfu.ru/news/1'',
         str_lit ''3'' @ [9] @ str_lit ''https://media.kpfu.ru/news/5'',
         str_lit ''4'' @ [9] @ str_lit ''https://media.kpfu.ru/news/2'',
         str_lit ''5'' @ [9] @ str_lit ''https://media.kpfu.ru/news/4''],
      world =
        \<lparr>outside = (),
         requested = five_listing_log @ map (\<lambda>url. (url, Response 200 article_html)) five_order,
         written =
           [(str_lit ''crawl_output/page_0001.txt'', article_html),
            (str_lit ''crawl_output/page_0002.txt'', article_html),
            (str_lit ''crawl_output/page_0003.txt'', article_html),
            (str_lit ''crawl_output/page_0004.txt'', article_html),
            (str_lit ''crawl_output/page_0005.txt'', article_html),
            (str_lit ''/srv/crawler/index.txt'', five_index_text)]\<rparr>\<rparr>"

text \<open>What the second run is expected to leave.\<close>

definition broken_final :: "unit crawl_state" where
  "broken_final =
     \<lparr>article_urls = {broken_url},
      saved_pages = [(1, broken_url, str_lit ''page_0001.txt'')],
      page_counter = 1,
      index_entries = [str_lit ''1'' @ [9] @ broken_url],
      world =
        \<lparr>outside = (),
         requested =
           [(str_lit ''https://media.kpfu.ru/news'', Response 200 broken_html),
            (str_lit ''https://media.kpfu.ru/news?page=1'', Response 404 []),
            (broken_url, Response 200 article_html)],
         written =
           [(str_lit ''crawl_output/page_0001.txt'', article_html),
            (str_lit ''/srv/crawler/index.txt'',
             str_lit ''# File Number'' @ [9] @ str_lit ''URL'' @ [10]
             @ str_lit ''#============================================================'' @ [10]
             @ str_lit ''1'' @ [9] @ str_lit ''http://media.kpfu.ru/news/a'' @ [10]
             @ str_lit ''b'' @ [10])]\<rparr>\<rparr>"

section \<open>Properties of the classifier\<close>

lemma cyrillic_pattern_search_iff:
  "cyrillic_pattern_search t = (\<exists>i < length t. 0x400 \<le> t ! i \<and> t ! i \<le> 0x4FF)"
proof (induction t)
  case Nil
  show ?case by simp
next
  case (Cons c cs)
  show ?case
    unfolding cyrillic_pattern_search.simps Cons.IH
    by (auto simp: cyrillic_def less_Suc_eq_0_disj)
qed

lemma latin_pattern_search_iff:
  "latin_pattern_search t =
     (\<exists>i. i + 2 < length t \<and> latin (t ! i) \<and> latin (t ! (i + 1)) \<and> latin (t ! (i + 2)))"
proof (induction t rule: latin_pattern_search.induct)
  case (1 a b c cs)
  have "(\<exists>i. i + 2 < length (a # b # c # cs) \<and> latin ((a # b # c # cs) ! i)
            \<and> latin ((a # b # c # cs) ! (i + 1)) \<and> latin ((a # b # c # cs) ! (i + 2)))
        = ((latin a \<and> latin b \<and> latin c)
           \<or> (\<exists>i. i + 2 < length (b # c # cs) \<and> latin ((b # c # cs) ! i)
                 \<and> latin ((b # c # cs) ! (i + 1)) \<and> latin ((b # c # cs) ! (i + 2))))"
    (is "?L = (?H \<or> ?R)")
  proof
    assume ?L
    then obtain i where i: "i + 2 < length (a # b # c # cs)" "latin ((a # b # c # cs) ! i)"
      "latin ((a # b # c # cs) ! (i + 1))" "latin ((a # b # c # cs) ! (i + 2))" by blast
    show "?H \<or> ?R"
    proof (cases i)
      case 0
      with i show ?thesis by simp
    next
      case (Suc j)
      with i have "j + 2 < length (b # c # cs) \<and> latin ((b # c # cs) ! j)
          \<and> latin ((b # c # cs) ! (j + 1)) \<and> latin ((b # c # cs) ! (j + 2))" by simp
      then show ?thesis by blast
    qed
  next
    assume "?H \<or> ?R"
    then show ?L
    proof
      assume ?H
      then have "0 + 2 < length (a # b # c # cs) \<and> latin ((a # b # c # cs) ! 0)
          \<and> latin ((a # b # c # cs) ! (0 + 1)) \<and> latin ((a # b # c # cs) ! (0 + 2))" by simp
      then show ?L by blast
    next
      assume ?R
      then obtain j where "j + 2 < length (b # c # cs)" "latin ((b # c # cs) ! j)"
        "latin ((b # c # cs) ! (j + 1))" "latin ((b # c # cs) ! (j + 2))" by blast
      then have "Suc j + 2 < length (a # b # c # cs) \<and> latin ((a # b # c # cs) ! Suc j)
          \<and> latin ((a # b # c # cs) ! (Suc j + 1)) \<and> latin ((a # b # c # cs) ! (Suc j + 2))"
        by simp
      then show ?L by blast
    qed
  qed
  with 1 show ?case by simp
qed simp_all


lemma page_text_ref [simp]: "page_text (ref_library parse) html = doc_text (parse html)"
  by (simp add: page_text_def ref_library_def)

lemma length_two_letter_text: "length two_letter_text = 110"
  by code_simp

lemma two_letter_text_no_run: "\<not> latin_pattern_search two_letter_text"
  by code_simp

lemma two_letter_text_no_cyrillic: "\<not> cyrillic_pattern_search two_letter_text"
  by code_simp

lemma length_texts:
  "length cyrillic_text = 107" "length three_letter_text = 103" "length (str_lit ''abc'') = 3"
  by code_simp+

lemma search_texts:
  "cyrillic_pattern_search cyrillic_text" "latin_pattern_search three_letter_text"
  by code_simp+

lemma html_example_nonempty: "str_lit ''<p>...</p>'' \<noteq> []"
  by (simp add: str_lit_def)


text \<open>
  C10. Given \<open>None\<close> or the empty string the classifier answers false, whatever the
  parser would do: the answer does not depend on the library, which is not called.
\<close>

theorem is_text_page_degenerate:
  "is_text_page L None = False \<and> is_text_page L (Some []) = False"
  by (simp add: is_text_page_def)

section \<open>Properties of the fetcher\<close>

text \<open>
  C8, as the claim states it, fails: a response with status 300 is not a 2xx response,
  and its text is returned.
\<close>

theorem fetch_page_status_300_counterexample:
  "fst (fetch_page (ref_system status_site []) (str_lit ''https://media.kpfu.ru/news/choice'')
         empty_world) = Some (str_lit ''Multiple Choices'')
   \<and> fst (fetch_page (ref_system status_site []) (str_lit ''https://media.kpfu.ru/news/choice'')
         empty_world) \<noteq> None"
  by (simp add: fetch_page_def ref_system_def status_site_def empty_world_def str_lit_def
      raise_for_status_def)

text \<open>
  C8, amended. A fetch makes exactly one GET. When the GET raises a request exception
  (a network error, a timeout) or answers with a status from 400 to 599, the fetch
  returns \<open>None\<close> and raises nothing; for every other status it returns the text of the
  response. Nothing is written and there is no second GET.
\<close>

theorem fetch_page_outcome:
  assumes "requests_get S url (outside w) = (r, out)"
  shows "(case r of
            Raised e \<Rightarrow> fst (fetch_page S url w) = None
          | Response status_code body \<Rightarrow>
              fst (fetch_page S url w)
                = (if 400 \<le> status_code \<and> status_code < 600 then None else Some body))
         \<and> requested (snd (fetch_page S url w)) = requested w @ [(url, r)]
         \<and> written (snd (fetch_page S url w)) = written w
         \<and> outside (snd (fetch_page S url w)) = out"
  using assms
  by (cases r) (simp_all add: fetch_page_def raise_for_status_def)

theorem fetch_page_outcome_witness:
  "fst (fetch_page (ref_system status_site []) (str_lit ''https://media.kpfu.ru/news/slow'')
         empty_world) = None
   \<and> fst (fetch_page (ref_system status_site []) (str_lit ''https://media.kpfu.ru/news/gone'')
         empty_world) = None
   \<and> fst (fetch_page (ref_system status_site []) (str_lit ''https://media.kpfu.ru/news/1'')
         empty_world) = Some (str_lit ''<p>text</p>'')
   \<and> requested (snd (fetch_page (ref_system status_site [])
         (str_lit ''https://media.kpfu.ru/news/slow'') empty_world))
       = [(str_lit ''https://media.kpfu.ru/news/slow'', Raised Timeout)]"
proof -
  let ?S = "ref_system status_site []"
  have g: "requests_get ?S url (outside empty_world)
             = (case map_of status_site url of Some r \<Rightarrow> r | None \<Rightarrow> Response 404 [], ())" for url
    by (simp add: ref_system_def)
  have 1: "map_of status_site (str_lit ''https://media.kpfu.ru/news/slow'') = Some (Raised Timeout)"
    and 2: "map_of status_site (str_lit ''https://media.kpfu.ru/news/gone'')
              = Some (Response 404 (str_lit ''Not Found''))"
    and 3: "map_of status_site (str_lit ''https://media.kpfu.ru/news/1'')
              = Some (Response 200 (str_lit ''<p>text</p>''))"
    by (simp_all add: status_site_def str_lit_def)
  show ?thesis
    using fetch_page_outcome [OF g [of "str_lit ''https://media.kpfu.ru/news/slow''"]]
      fetch_page_outcome [OF g [of "str_lit ''https://media.kpfu.ru/news/gone''"]]
      fetch_page_outcome [OF g [of "str_lit ''https://media.kpfu.ru/news/1''"]]
    by (simp add: 1 2 3 empty_world_def)
qed

section \<open>Properties of the link extractor\<close>

lemma contains_iff: "contains s p = (\<exists>a b. s = a @ p @ b)"
proof (induction s)
  case Nil
  show ?case by auto
next
  case (Cons c cs)
  have "startswith (c # cs) p = (\<exists>b. c # cs = p @ b)"
    unfolding startswith_def
    by (metis append_eq_conv_conj append_take_drop_id)
  moreover have "(\<exists>a b. c # cs = a @ p @ b)
      = ((\<exists>b. c # cs = p @ b) \<or> (\<exists>a b. cs = a @ p @ b))"
  proof
    assume "\<exists>a b. c # cs = a @ p @ b"
    then obtain a b where ab: "c # cs = a @ p @ b" by blast
    show "(\<exists>b. c # cs = p @ b) \<or> (\<exists>a b. cs = a @ p @ b)"
    proof (cases a)
      case Nil
      with ab show ?thesis by auto
    next
      case (Cons x a')
      with ab have "cs = a' @ p @ b" by simp
      then show ?thesis by blast
    qed
  next
    assume "(\<exists>b. c # cs = p @ b) \<or> (\<exists>a b. cs = a @ p @ b)"
    then show "\<exists>a b. c # cs = a @ p @ b"
    proof
      assume "\<exists>b. c # cs = p @ b"
      then obtain b where "c # cs = [] @ p @ b" by auto
      then show ?thesis by blast
    next
      assume "\<exists>a b. cs = a @ p @ b"
      then obtain a b where "c # cs = (c # a) @ p @ b" by auto
      then show ?thesis by blast
    qed
  qed
  ultimately show ?case
    using Cons.IH by simp
qed

lemma endswith_iff: "endswith s p = (\<exists>a. s = a @ p)"
proof
  assume "endswith s p"
  then have "s = take (length s - length p) s @ p"
    unfolding endswith_def by (metis append_take_drop_id)
  then show "\<exists>a. s = a @ p" ..
next
  assume "\<exists>a. s = a @ p"
  then show "endswith s p"
    unfolding endswith_def by auto
qed

lemma any_endswith_iff: "any_endswith p exts = (\<exists>ext \<in> set exts. endswith p ext)"
  by (induction exts) auto

lemma visit_href_keeps:
  "visit_href L C href links
     = (if keeps L C href then insert (urljoin L (BASE_URL C) href) links else links)"
  by (auto simp: keeps_def visit_href_def Let_def)

lemma fold_visit_href:
  "fold (visit_href L C) hrefs links
     = links \<union> {urljoin L (BASE_URL C) href | href. href \<in> set hrefs \<and> keeps L C href}"
proof (induction hrefs arbitrary: links)
  case Nil
  show ?case by simp
next
  case (Cons h hs)
  have "fold (visit_href L C) (h # hs) links = fold (visit_href L C) hs (visit_href L C h links)"
    by simp
  also have "\<dots> = visit_href L C h links
      \<union> {urljoin L (BASE_URL C) href | href. href \<in> set hs \<and> keeps L C href}"
    by (rule Cons.IH)
  also have "\<dots> = links
      \<union> {urljoin L (BASE_URL C) href | href. href \<in> set (h # hs) \<and> keeps L C href}"
    by (auto simp: visit_href_keeps)
  finally show ?case .
qed

lemma extract_article_links_eq:
  "extract_article_links L C html
     = {urljoin L (BASE_URL C) href | href.
          href \<in> set (find_all_a L (BeautifulSoup L html)) \<and> keeps L C href}"
  by (simp add: extract_article_links_def fold_visit_href)

lemma keeps_scope:
  assumes "keeps L C href"
  shows "\<not> startswith href (str_lit ''#'') \<and> \<not> startswith href (str_lit ''javascript:'')
    \<and> netloc (urlparse L (urljoin L (BASE_URL C) href)) = netloc (urlparse L (BASE_URL C))
    \<and> \<not> any_endswith (str_lower L (path (urlparse L (urljoin L (BASE_URL C) href))))
          blocked_extensions
    \<and> \<not> contains (str_lower L (str_lower L (path (urlparse L (urljoin L (BASE_URL C) href)))))
          (str_lit ''rss'')
    \<and> str_lower L (path (urlparse L (urljoin L (BASE_URL C) href))) \<noteq> str_lit ''/news''
    \<and> str_lower L (path (urlparse L (urljoin L (BASE_URL C) href))) \<noteq> str_lit ''/news/''
    \<and> contains (str_lower L (path (urlparse L (urljoin L (BASE_URL C) href)))) (str_lit ''/news'')"
  using assms
  unfolding keeps_def visit_href_def Let_def
  by (auto split: if_splits)

text \<open>
  C9. The extractor keeps no state between calls and its result is a set: running its
  loop once more over the anchors of the same HTML, on top of what it returned, adds
  nothing, and merging the links of one page into the candidate set twice gives the
  same set as merging them once.
\<close>

theorem extract_article_links_idempotent:
  "fold (visit_href L C) (find_all_a L (BeautifulSoup L html)) (extract_article_links L C html)
     = extract_article_links L C html
   \<and> (candidates \<union> extract_article_links L C html) \<union> extract_article_links L C html
     = candidates \<union> extract_article_links L C html"
proof -
  have "fold (visit_href L C) (find_all_a L (BeautifulSoup L html)) (extract_article_links L C html)
      = extract_article_links L C html \<union> extract_article_links L C html"
    unfolding fold_visit_href [of L C _ "extract_article_links L C html"]
    by (simp add: extract_article_links_eq)
  then show ?thesis by auto
qed

section \<open>Evaluating the reference library\<close>

lemmas url_defs = ref_urljoin_def ref_urlparse_def ref_urlparse2_def ref_urlsplit_def
  partition1_def uses_params_def uses_relative_def uses_netloc_def scheme_chars_def latin_def
  ascii_lower_def ref_urlunparse_def splitparams_def

lemma ref_library_sel [simp]:
  "BeautifulSoup (ref_library parse) = parse"
  "get_text (ref_library parse) = doc_text"
  "find_all_a (ref_library parse) = doc_hrefs"
  "urljoin (ref_library parse) = ref_urljoin"
  "urlparse (ref_library parse) = ref_urlparse"
  "str_lower (ref_library parse) = ascii_lower"
  by (simp_all add: ref_library_def)

lemma settings_sel [simp]:
  "BASE_URL settings = str_lit ''https://media.kpfu.ru''"
  "NEWS_URL settings = str_lit ''https://media.kpfu.ru/news''"
  "OUTPUT_DIR settings = str_lit ''crawl_output''"
  "INDEX_FILE settings = str_lit ''index.txt''"
  "MIN_PAGES settings = 100"
  by (simp_all add: settings_def)

lemma parse_base:
  "ref_urlparse (str_lit ''https://media.kpfu.ru'')
     = \<lparr>scheme = str_lit ''https'', netloc = str_lit ''media.kpfu.ru'', path = [],
        params = [], query = [], fragment = []\<rparr>"
  by (simp add: url_defs str_lit_def Let_def)

lemma join_http_1:
  "ref_urljoin (str_lit ''https://media.kpfu.ru'') (str_lit ''http://media.kpfu.ru/news/1'')
     = str_lit ''http://media.kpfu.ru/news/1''"
  by (simp add: url_defs str_lit_def Let_def)

lemma parse_http_1:
  "ref_urlparse (str_lit ''http://media.kpfu.ru/news/1'')
     = \<lparr>scheme = str_lit ''http'', netloc = str_lit ''media.kpfu.ru'', path = str_lit ''/news/1'',
        params = [], query = [], fragment = []\<rparr>"
  by (simp add: url_defs str_lit_def Let_def)

lemma join_NEWS_2:
  "ref_urljoin (str_lit ''https://media.kpfu.ru'') (str_lit ''/NEWS/2'')
     = str_lit ''https://media.kpfu.ru/NEWS/2''"
  by (simp add: url_defs str_lit_def Let_def)

lemma parse_NEWS_2:
  "ref_urlparse (str_lit ''https://media.kpfu.ru/NEWS/2'')
     = \<lparr>scheme = str_lit ''https'', netloc = str_lit ''media.kpfu.ru'', path = str_lit ''/NEWS/2'',
        params = [], query = [], fragment = []\<rparr>"
  by (simp add: url_defs str_lit_def Let_def)

lemma join_news_slash:
  "ref_urljoin (str_lit ''https://media.kpfu.ru'') (str_lit ''/news/'')
     = str_lit ''https://media.kpfu.ru/news/''"
  by (simp add: url_defs str_lit_def Let_def)

lemma parse_news_slash:
  "ref_urlparse (str_lit ''https://media.kpfu.ru/news/'')
     = \<lparr>scheme = str_lit ''https'', netloc = str_lit ''media.kpfu.ru'', path = str_lit ''/news/'',
        params = [], query = [], fragment = []\<rparr>"
  by (simp add: url_defs str_lit_def Let_def)

lemma visit_mixed:
  "visit_href mixed_library settings (str_lit ''http://media.kpfu.ru/news/1'') links
     = insert (str_lit ''http://media.kpfu.ru/news/1'') links"
  "visit_href mixed_library settings (str_lit ''/NEWS/2'') links
     = insert (str_lit ''https://media.kpfu.ru/NEWS/2'') links"
  "visit_href mixed_library settings (str_lit ''/news/'') links = links"
  "visit_href mixed_library settings (str_lit ''#top'') links = links"
  unfolding visit_href_def mixed_library_def ref_library_sel settings_sel parse_base
    join_http_1 parse_http_1 join_NEWS_2 parse_NEWS_2 join_news_slash parse_news_slash Let_def
  by (simp_all add: str_lit_def startswith_def endswith_def blocked_extensions_def ascii_lower_def)

lemma mixed_extract:
  "extract_article_links mixed_library settings mixed_listing
     = {str_lit ''http://media.kpfu.ru/news/1'', str_lit ''https://media.kpfu.ru/NEWS/2''}"
proof -
  have "find_all_a mixed_library (BeautifulSoup mixed_library mixed_listing)
      = [str_lit ''http://media.kpfu.ru/news/1'', str_lit ''/NEWS/2'', str_lit ''/news/'',
         str_lit ''#top'']"
    by (simp add: mixed_library_def ref_parse_def)
  then show ?thesis
    by (auto simp: extract_article_links_def visit_mixed)
qed


section \<open>Where the candidate set comes from\<close>

lemma truthy_the: "truthy h \<Longrightarrow> \<exists>body. h = Some body \<and> body \<noteq> []"
  by (cases h) auto

lemma pagination_article_urls:
  "url \<in> article_urls (pagination L S C page_nums st)
     \<Longrightarrow> url \<in> article_urls st \<or> (\<exists>html. url \<in> extract_article_links L C html)"
proof (induction page_nums arbitrary: st)
  case Nil
  then show ?case by simp
next
  case (Cons page_num rest)
  obtain h w where f: "fetch_page S (paginated_url C page_num) (world st) = (h, w)"
    by (cases "fetch_page S (paginated_url C page_num) (world st)")
  show ?case
  proof (cases "truthy h \<and> extract_article_links L C (the h) \<noteq> {}")
    case False
    with Cons.prems f show ?thesis
      by (auto simp: Let_def split: if_splits)
  next
    case True
    with Cons.prems f have "url \<in> article_urls (pagination L S C rest
        (st\<lparr>article_urls := article_urls st \<union> extract_article_links L C (the h), world := w\<rparr>))"
      by (simp add: Let_def)
    from Cons.IH [OF this] show ?thesis by auto
  qed
qed

lemma collect_article_urls:
  assumes "url \<in> article_urls (collect L S C out)"
  shows "\<exists>html. url \<in> extract_article_links L C html"
proof -
  obtain h w where f: "fetch_page S (NEWS_URL C)
      \<lparr>outside = out, requested = [], written = []\<rparr> = (h, w)"
    by (cases "fetch_page S (NEWS_URL C) \<lparr>outside = out, requested = [], written = []\<rparr>")
  from assms f show ?thesis
    by (auto simp: collect_def Let_def dest!: pagination_article_urls split: if_splits)
qed

text \<open>
  C2, as the claim states it, fails twice. An anchor to the plain-HTTP site is kept,
  although its scheme is not that of the base; and an anchor with an upper-case path is
  kept, although its path does not contain the segment \<open>/news\<close>.
\<close>

theorem extract_article_links_origin_counterexample:
  "str_lit ''http://media.kpfu.ru/news/1''
     \<in> extract_article_links mixed_library settings mixed_listing
   \<and> scheme (urlparse mixed_library (str_lit ''http://media.kpfu.ru/news/1''))
     \<noteq> scheme (urlparse mixed_library (BASE_URL settings))
   \<and> str_lit ''https://media.kpfu.ru/NEWS/2''
     \<in> extract_article_links mixed_library settings mixed_listing
   \<and> \<not> contains (path (urlparse mixed_library (str_lit ''https://media.kpfu.ru/NEWS/2'')))
         (str_lit ''/news'')"
  unfolding mixed_extract
  unfolding mixed_library_def ref_library_sel settings_sel parse_base parse_http_1 parse_NEWS_2
  by (simp add: str_lit_def startswith_def)

text \<open>
  C2, amended. Every URL the extractor returns, and so every URL of the candidate set,
  is the join of the base with an anchor and has the network location of the base (the
  scheme is not compared); its lower-cased path ends with no blocklisted extension, does
  not contain \<open>rss\<close> (when lower-cased once more, as the source does), is neither
  \<open>/news\<close> nor \<open>/news/\<close>, and contains \<open>/news\<close>.
\<close>

theorem extract_article_links_scope:
  assumes "url \<in> extract_article_links L C html \<or> url \<in> article_urls (collect L S C out)"
  shows "netloc (urlparse L url) = netloc (urlparse L (BASE_URL C))
    \<and> \<not> any_endswith (str_lower L (path (urlparse L url))) blocked_extensions
    \<and> \<not> contains (str_lower L (str_lower L (path (urlparse L url)))) (str_lit ''rss'')
    \<and> str_lower L (path (urlparse L url)) \<noteq> str_lit ''/news''
    \<and> str_lower L (path (urlparse L url)) \<noteq> str_lit ''/news/''
    \<and> contains (str_lower L (path (urlparse L url))) (str_lit ''/news'')
    \<and> (\<exists>href. url = urljoin L (BASE_URL C) href \<and> \<not> startswith href (str_lit ''#'')
          \<and> \<not> startswith href (str_lit ''javascript:''))"
proof -
  from assms have "\<exists>h. url \<in> extract_article_links L C h"
    using collect_article_urls [of url L S C out] by auto
  then obtain h where "url \<in> extract_article_links L C h" ..
  then obtain href where u: "url = urljoin L (BASE_URL C) href" and k: "keeps L C href"
    unfolding extract_article_links_eq by blast
  from keeps_scope [OF k] show ?thesis
    unfolding u by blast
qed

theorem extract_article_links_scope_witness:
  "str_lit ''https://media.kpfu.ru/NEWS/2''
     \<in> extract_article_links mixed_library settings mixed_listing
   \<and> netloc (ref_urlparse (str_lit ''https://media.kpfu.ru/NEWS/2'')) = str_lit ''media.kpfu.ru''
   \<and> contains (ascii_lower (path (ref_urlparse (str_lit ''https://media.kpfu.ru/NEWS/2''))))
        (str_lit ''/news'')"
proof -
  have m: "str_lit ''https://media.kpfu.ru/NEWS/2''
      \<in> extract_article_links mixed_library settings mixed_listing"
    unfolding mixed_extract by simp
  have "str_lit ''https://media.kpfu.ru/NEWS/2''
        \<in> extract_article_links mixed_library settings mixed_listing
      \<or> str_lit ''https://media.kpfu.ru/NEWS/2''
        \<in> article_urls (collect mixed_library (ref_system [] []) settings ())"
    using m by simp
  from extract_article_links_scope [OF this] m show ?thesis
    unfolding mixed_library_def ref_library_sel settings_sel parse_base
    by simp
qed

section \<open>Decimal numbers\<close>

lemma digits_value_snoc: "digits_value (ds @ [c]) = 10 * digits_value ds + (c - 48)"
  by (simp add: digits_value_def)

lemma digits_value_str_nat: "digits_value (str_nat n) = n"
proof (induction n rule: str_nat.induct)
  case (1 n)
  show ?case
  proof (cases "n < 10")
    case True
    then show ?thesis
      by (simp add: str_nat.simps [of n] digits_value_def)
  next
    case False
    with 1 have "digits_value (str_nat (n div 10)) = n div 10" by simp
    with False show ?thesis
      by (simp add: str_nat.simps [of n] digits_value_snoc)
  qed
qed

lemma str_nat_inj: "str_nat m = str_nat n \<Longrightarrow> m = n"
  by (metis digits_value_str_nat)

lemma str_nat_digits: "c \<in> set (str_nat n) \<Longrightarrow> 48 \<le> c \<and> c \<le> 57"
proof (induction n rule: str_nat.induct)
  case (1 n)
  show ?case
  proof (cases "n < 10")
    case True
    with "1.prems" show ?thesis
      by (simp add: str_nat.simps [of n])
  next
    case False
    with "1.prems" have "c \<in> set (str_nat (n div 10)) \<or> c = 48 + n mod 10"
      by (auto simp: str_nat.simps [of n])
    then show ?thesis
    proof
      assume "c \<in> set (str_nat (n div 10))"
      with 1 False show ?thesis by simp
    next
      assume "c = 48 + n mod 10"
      moreover have "n mod 10 < 10" by simp
      ultimately show ?thesis by linarith
    qed
  qed
qed

lemma str_nat_nonempty: "str_nat n \<noteq> []"
  by (subst str_nat.simps) simp

lemma length_str_nat_le4: "n < 10000 \<Longrightarrow> length (str_nat n) \<le> 4"
proof -
  assume n: "n < 10000"
  have a: "length (str_nat k) = 1" if "k < 10" for k
    using that by (simp add: str_nat.simps [of k])
  have b: "length (str_nat k) \<le> 2" if "k < 100" for k
  proof (cases "k < 10")
    case True
    then show ?thesis using a by simp
  next
    case False
    with that have "k div 10 < 10" by simp
    with False a [of "k div 10"] show ?thesis
      by (simp add: str_nat.simps [of k])
  qed
  have c: "length (str_nat k) \<le> 3" if "k < 1000" for k
  proof (cases "k < 10")
    case True
    then show ?thesis using a by simp
  next
    case False
    with that have "k div 10 < 100" by simp
    with False b [of "k div 10"] show ?thesis
      by (simp add: str_nat.simps [of k])
  qed
  show ?thesis
  proof (cases "n < 10")
    case True
    then show ?thesis using a by simp
  next
    case False
    with n have "n div 10 < 1000" by simp
    with False c [of "n div 10"] show ?thesis
      by (simp add: str_nat.simps [of n])
  qed
qed

lemma digits_value_zeros: "digits_value (replicate k 48 @ ds) = digits_value ds"
proof -
  have "foldl (\<lambda>a c. 10 * a + (c - 48)) 0 (replicate k 48) = (0::nat)"
    by (induction k) simp_all
  then show ?thesis
    by (simp add: digits_value_def)
qed

lemma digits_value_format_04d: "digits_value (format_04d n) = n"
  by (simp add: format_04d_def digits_value_zeros digits_value_str_nat)

lemma format_04d_inj: "format_04d m = format_04d n \<Longrightarrow> m = n"
  by (metis digits_value_format_04d)

lemma length_format_04d: "n < 10000 \<Longrightarrow> length (format_04d n) = 4"
  using length_str_nat_le4 [of n] by (simp add: format_04d_def)

lemma format_04d_digits: "c \<in> set (format_04d n) \<Longrightarrow> 48 \<le> c \<and> c \<le> 57"
  using str_nat_digits [of c n] by (auto simp: format_04d_def)

lemma format_04d_nonempty: "format_04d n \<noteq> []"
  by (simp add: format_04d_def str_nat_nonempty)

lemma page_filename_inj: "page_filename m = page_filename n \<Longrightarrow> m = n"
  by (simp add: page_filename_def format_04d_inj)

lemma paginated_url_inj: "paginated_url C m = paginated_url C n \<Longrightarrow> m = n"
  by (simp add: paginated_url_def str_nat_inj)

lemma paginated_url_not_listing: "paginated_url C n \<noteq> NEWS_URL C"
  by (simp add: paginated_url_def str_lit_def)

section \<open>The pagination walker\<close>

lemma fetch_page_eq:
  "fetch_page S url w =
     (response_text (fst (requests_get S url (outside w))),
      w\<lparr>outside := snd (requests_get S url (outside w)),
        requested := requested w @ [(url, fst (requests_get S url (outside w)))]\<rparr>)"
  by (simp add: fetch_page_def split: prod.split)

lemma pagination_requested:
  "\<exists>rs. length rs \<le> length page_nums
     \<and> requested (world (pagination L S C page_nums st))
         = requested (world st) @ zip (map (paginated_url C) page_nums) rs
     \<and> (\<forall>i. Suc i < length rs \<longrightarrow> \<not> page_ends L C (rs ! i))
     \<and> (length rs < length page_nums \<longrightarrow> rs \<noteq> [] \<and> page_ends L C (last rs))
     \<and> written (world (pagination L S C page_nums st)) = written (world st)"
proof (induction page_nums arbitrary: st)
  case Nil
  show ?case by simp
next
  case (Cons page_num rest)
  define r where "r = fst (requests_get S (paginated_url C page_num) (outside (world st)))"
  define w where "w = (world st)\<lparr>outside := snd (requests_get S (paginated_url C page_num)
      (outside (world st))), requested := requested (world st) @ [(paginated_url C page_num, r)]\<rparr>"
  have f: "fetch_page S (paginated_url C page_num) (world st) = (response_text r, w)"
    by (simp add: fetch_page_eq r_def w_def)
  show ?case
  proof (cases "page_ends L C r")
    case True
    then have pe: "pagination L S C (page_num # rest) st = st\<lparr>world := w\<rparr>"
      by (auto simp: f page_ends_def Let_def)
    have "length [r] \<le> length (page_num # rest)
      \<and> requested (world (pagination L S C (page_num # rest) st))
          = requested (world st) @ zip (map (paginated_url C) (page_num # rest)) [r]
      \<and> (\<forall>i. Suc i < length [r] \<longrightarrow> \<not> page_ends L C ([r] ! i))
      \<and> (length [r] < length (page_num # rest) \<longrightarrow> [r] \<noteq> [] \<and> page_ends L C (last [r]))
      \<and> written (world (pagination L S C (page_num # rest) st)) = written (world st)"
      unfolding pe using True by (simp add: w_def)
    then show ?thesis by blast
  next
    case False
    define st1 where "st1 = st\<lparr>article_urls := article_urls st
        \<union> extract_article_links L C (the (response_text r)), world := w\<rparr>"
    from False have p: "pagination L S C (page_num # rest) st = pagination L S C rest st1"
      by (auto simp: f page_ends_def Let_def st1_def)
    from Cons.IH [of st1] obtain rs where rs: "length rs \<le> length rest"
      "requested (world (pagination L S C rest st1))
         = requested (world st1) @ zip (map (paginated_url C) rest) rs"
      "\<forall>i. Suc i < length rs \<longrightarrow> \<not> page_ends L C (rs ! i)"
      "length rs < length rest \<longrightarrow> rs \<noteq> [] \<and> page_ends L C (last rs)"
      "written (world (pagination L S C rest st1)) = written (world st1)"
      by blast
    have 1: "length (r # rs) \<le> length (page_num # rest)"
      using rs(1) by simp
    have 2: "requested (world (pagination L S C (page_num # rest) st))
          = requested (world st) @ zip (map (paginated_url C) (page_num # rest)) (r # rs)"
      unfolding p using rs(2) by (simp add: st1_def w_def)
    have 3: "\<forall>i. Suc i < length (r # rs) \<longrightarrow> \<not> page_ends L C ((r # rs) ! i)"
    proof (intro allI impI)
      fix i
      assume i: "Suc i < length (r # rs)"
      show "\<not> page_ends L C ((r # rs) ! i)"
      proof (cases i)
        case 0
        with False show ?thesis by simp
      next
        case (Suc j)
        with i rs(3) show ?thesis by simp
      qed
    qed
    have 4: "length (r # rs) < length (page_num # rest)
        \<longrightarrow> r # rs \<noteq> [] \<and> page_ends L C (last (r # rs))"
      using rs(4) by auto
    have 5: "written (world (pagination L S C (page_num # rest) st)) = written (world st)"
      unfolding p using rs(5) by (simp add: st1_def w_def)
    from 1 2 3 4 5 show ?thesis by blast
  qed
qed

lemma pagination_keeps:
  "saved_pages (pagination L S C page_nums st) = saved_pages st
   \<and> page_counter (pagination L S C page_nums st) = page_counter st
   \<and> index_entries (pagination L S C page_nums st) = index_entries st"
proof (induction page_nums arbitrary: st)
  case Nil
  show ?case by simp
next
  case (Cons page_num rest)
  show ?case
    by (simp add: Cons.IH Let_def split: prod.split)
qed

lemma collect_requested:
  "\<exists>r0 rs. length rs \<le> 30
     \<and> requested (world (collect L S C out))
         = (NEWS_URL C, r0) # zip (map (paginated_url C) [1..<31]) rs
     \<and> (\<forall>i. Suc i < length rs \<longrightarrow> \<not> page_ends L C (rs ! i))
     \<and> (length rs < 30 \<longrightarrow> rs \<noteq> [] \<and> page_ends L C (last rs))"
proof -
  define w0 where "w0 = \<lparr>outside = out, requested = [], written = []\<rparr>"
  define r0 where "r0 = fst (requests_get S (NEWS_URL C) out)"
  define st0 where
    "st0 = \<lparr>article_urls = {}, saved_pages = [], page_counter = 0, index_entries = [],
            world = snd (fetch_page S (NEWS_URL C) w0)\<rparr>"
  define st1 where "st1 = (if truthy (response_text r0)
      then st0\<lparr>article_urls := article_urls st0
             \<union> extract_article_links L C (the (response_text r0))\<rparr>
      else st0)"
  have n: "(30::nat) + 1 = 31" by simp
  have c: "collect L S C out = pagination L S C [1..<31] st1"
    unfolding collect_def Let_def n
    by (simp add: st1_def st0_def w0_def r0_def fetch_page_eq del: upt_Suc)
  have r: "requested (world st1) = [(NEWS_URL C, r0)]"
    by (simp add: st1_def st0_def w0_def r0_def fetch_page_eq)
  from pagination_requested [of "[1..<31]" L S C st1] obtain rs where
    "length rs \<le> length [1..<31]"
    "requested (world (pagination L S C [1..<31] st1))
       = requested (world st1) @ zip (map (paginated_url C) [1..<31]) rs"
    "\<forall>i. Suc i < length rs \<longrightarrow> \<not> page_ends L C (rs ! i)"
    "length rs < length [1..<31] \<longrightarrow> rs \<noteq> [] \<and> page_ends L C (last rs)"
    by blast
  then have "length rs \<le> 30
     \<and> requested (world (collect L S C out))
         = (NEWS_URL C, r0) # zip (map (paginated_url C) [1..<31]) rs
     \<and> (\<forall>i. Suc i < length rs \<longrightarrow> \<not> page_ends L C (rs ! i))
     \<and> (length rs < 30 \<longrightarrow> rs \<noteq> [] \<and> page_ends L C (last rs))"
    unfolding c r by simp
  then show ?thesis by blast
qed

lemma collect_fresh:
  "saved_pages (collect L S C out) = [] \<and> page_counter (collect L S C out) = 0
   \<and> index_entries (collect L S C out) = [] \<and> written (world (collect L S C out)) = []"
proof -
  have "written (world (pagination L S C page_nums st)) = written (world st)" for page_nums st
    using pagination_requested [of page_nums L S C st] by blast
  then show ?thesis
    by (simp add: collect_def Let_def pagination_keeps fetch_page_eq del: upt_Suc split: prod.split)
qed

lemma page_nth:
  "i < 30 \<Longrightarrow> map (paginated_url C) [1..<31] ! i = paginated_url C (Suc i)"
  by (simp del: upt_Suc)

lemma zip_pages_mem:
  assumes "length rs \<le> 30"
    and "(paginated_url C n, r) \<in> set (zip (map (paginated_url C) [1..<31]) rs)"
  shows "\<exists>i < length rs. n = Suc i \<and> r = rs ! i"
proof -
  from assms(2) obtain i where i: "map (paginated_url C) [1..<31] ! i = paginated_url C n"
    "rs ! i = r" "i < length rs"
    unfolding in_set_zip by auto
  from i(3) assms(1) have "i < 30" by simp
  with i(1) have "paginated_url C (Suc i) = paginated_url C n"
    by (simp only: page_nth)
  then have "n = Suc i" using paginated_url_inj by metis
  with i show ?thesis by blast
qed

text \<open>
  C5. The walker asks for the listing and then for the pages 1, 2, ... in turn, at most
  up to page 30. If the fetch of page \<open>n\<close> gives nothing (it failed, or the body is
  empty) or gives a page from which no link is extracted, page \<open>n + 1\<close> is never
  fetched.
\<close>

theorem pagination_stops:
  "(\<forall>n r. (paginated_url C n, r) \<in> set (requested (world (collect L S C out)))
           \<and> page_ends L C r
        \<longrightarrow> paginated_url C (Suc n) \<notin> fst ` set (requested (world (collect L S C out))))
   \<and> (\<exists>k \<le> 30. map fst (requested (world (collect L S C out)))
                  = NEWS_URL C # map (paginated_url C) [1..<Suc k])"
proof -
  from collect_requested [of L S C out] obtain r0 rs where
    len: "length rs \<le> 30"
    and log: "requested (world (collect L S C out))
         = (NEWS_URL C, r0) # zip (map (paginated_url C) [1..<31]) rs"
    and go: "\<forall>i. Suc i < length rs \<longrightarrow> \<not> page_ends L C (rs ! i)"
    by blast
  have 1: "paginated_url C (Suc n) \<notin> fst ` set (requested (world (collect L S C out)))"
    if m: "(paginated_url C n, r) \<in> set (requested (world (collect L S C out)))"
      and e: "page_ends L C r" for n r
  proof
    from m have "(paginated_url C n, r) \<in> set (zip (map (paginated_url C) [1..<31]) rs)"
      unfolding log using paginated_url_not_listing [of C n] by simp
    from zip_pages_mem [OF len this] obtain i where i: "i < length rs" "n = Suc i" "r = rs ! i"
      by blast
    from go e i(3) have "\<not> Suc i < length rs" by blast
    with i(1) have k: "length rs = Suc i" by simp
    assume "paginated_url C (Suc n) \<in> fst ` set (requested (world (collect L S C out)))"
    then obtain r' where
      "(paginated_url C (Suc n), r') \<in> set (requested (world (collect L S C out)))" by auto
    then have "(paginated_url C (Suc n), r') \<in> set (zip (map (paginated_url C) [1..<31]) rs)"
      unfolding log using paginated_url_not_listing [of C "Suc n"] by simp
    from zip_pages_mem [OF len this] obtain j where "j < length rs" "Suc n = Suc j"
      by blast
    with i(2) k show False by simp
  qed
  have "map fst (zip (map (paginated_url C) [1..<31]) rs)
      = take (min (length (map (paginated_url C) [1..<31])) (length rs))
          (map (paginated_url C) [1..<31])"
    by (rule map_fst_zip_take)
  also have "\<dots> = take (length rs) (map (paginated_url C) [1..<31])"
    using len by simp
  also have "\<dots> = map (paginated_url C) [1..<Suc (length rs)]"
    using len by (simp add: take_map take_upt del: upt_Suc)
  finally have 2: "map fst (requested (world (collect L S C out)))
      = NEWS_URL C # map (paginated_url C) [1..<Suc (length rs)]"
    unfolding log by simp
  have A: "\<forall>n r. (paginated_url C n, r) \<in> set (requested (world (collect L S C out)))
           \<and> page_ends L C r
        \<longrightarrow> paginated_url C (Suc n) \<notin> fst ` set (requested (world (collect L S C out)))"
    using 1 by blast
  have B: "\<exists>k \<le> 30. map fst (requested (world (collect L S C out)))
                  = NEWS_URL C # map (paginated_url C) [1..<Suc k]"
    using 2 len by (intro exI [of _ "length rs"]) simp
  from A B show ?thesis by (rule conjI)
qed

section \<open>The download loop\<close>

lemma frontier_done:
  "MIN_PAGES C \<le> length (saved_pages st) \<Longrightarrow> frontier L S C urls st = Inr st"
  by (cases urls) simp_all

lemma frontier_step:
  assumes "length (saved_pages st) < MIN_PAGES C"
  shows "frontier L S C (url # rest) st =
     (let r = fst (requests_get S url (outside (world st)));
          w = (world st)\<lparr>outside := snd (requests_get S url (outside (world st))),
                         requested := requested (world st) @ [(url, r)]\<rparr>
      in if \<not> (truthy (response_text r) \<and> is_text_page L (response_text r))
         then frontier L S C rest (st\<lparr>world := w\<rparr>)
         else
           case write_file S (os_path_join (OUTPUT_DIR C) (page_filename (Suc (page_counter st))))
                  (the (response_text r)) (outside w) of
             None \<Rightarrow> Inl OSError
           | Some out \<Rightarrow>
               frontier L S C rest
                 (st\<lparr>page_counter := Suc (page_counter st),
                     saved_pages := saved_pages st
                       @ [(Suc (page_counter st), url, page_filename (Suc (page_counter st)))],
                     index_entries := index_entries st
                       @ [index_entry (Suc (page_counter st)) url],
                     world := w\<lparr>outside := out,
                       written := written w
                         @ [(os_path_join (OUTPUT_DIR C) (page_filename (Suc (page_counter st))),
                             the (response_text r))]\<rparr>\<rparr>))"
  using assms
  by (simp add: fetch_page_eq save_page_def Let_def split: option.split)

lemma archive_ok_accept:
  assumes "archive_ok C st"
  shows "archive_ok C
     (st\<lparr>page_counter := Suc (page_counter st),
         saved_pages := saved_pages st
           @ [(Suc (page_counter st), url, page_filename (Suc (page_counter st)))],
         index_entries := index_entries st @ [index_entry (Suc (page_counter st)) url],
         world := w\<lparr>outside := out,
           written := written (world st)
             @ [(os_path_join (OUTPUT_DIR C) (page_filename (Suc (page_counter st))), body)]\<rparr>\<rparr>)"
  using assms by (simp add: archive_ok_def)

lemma archive_ok_world:
  "archive_ok C st \<Longrightarrow> written w = written (world st) \<Longrightarrow> archive_ok C (st\<lparr>world := w\<rparr>)"
  by (simp add: archive_ok_def)

lemma frontier_archive_ok:
  "archive_ok C st \<Longrightarrow> frontier L S C urls st = Inr st' \<Longrightarrow> archive_ok C st'"
proof (induction urls arbitrary: st)
  case Nil
  then show ?case by simp
next
  case (Cons url rest)
  show ?case
  proof (cases "length (saved_pages st) < MIN_PAGES C")
    case False
    with Cons.prems show ?thesis by simp
  next
    case True
    define r where "r = fst (requests_get S url (outside (world st)))"
    define w where "w = (world st)\<lparr>outside := snd (requests_get S url (outside (world st))),
        requested := requested (world st) @ [(url, r)]\<rparr>"
    note step = frontier_step [OF True, of L S url rest, unfolded Let_def, folded r_def,
        folded w_def]
    show ?thesis
    proof (cases "truthy (response_text r) \<and> is_text_page L (response_text r)")
      case False
      with Cons.prems(2) have "frontier L S C rest (st\<lparr>world := w\<rparr>) = Inr st'"
        unfolding step by simp
      moreover have "archive_ok C (st\<lparr>world := w\<rparr>)"
        using Cons.prems(1) by (rule archive_ok_world) (simp add: w_def)
      ultimately show ?thesis by (rule Cons.IH [rotated])
    next
      case acc: True
      show ?thesis
      proof (cases "write_file S (os_path_join (OUTPUT_DIR C)
          (page_filename (Suc (page_counter st)))) (the (response_text r)) (outside w)")
        case None
        with acc Cons.prems(2) show ?thesis unfolding step by simp
      next
        case (Some out)
        define st1 where "st1 = st\<lparr>page_counter := Suc (page_counter st),
           saved_pages := saved_pages st
             @ [(Suc (page_counter st), url, page_filename (Suc (page_counter st)))],
           index_entries := index_entries st @ [index_entry (Suc (page_counter st)) url],
           world := w\<lparr>outside := out,
             written := written w
               @ [(os_path_join (OUTPUT_DIR C) (page_filename (Suc (page_counter st))),
                   the (response_text r))]\<rparr>\<rparr>"
        from acc Some Cons.prems(2) have "frontier L S C rest st1 = Inr st'"
          unfolding step st1_def by simp
        moreover have "archive_ok C st1"
          unfolding st1_def using archive_ok_accept [OF Cons.prems(1)]
          by (simp add: w_def)
        ultimately show ?thesis by (rule Cons.IH [rotated])
      qed
    qed
  qed
qed


lemma frontier_Cons_Inr:
  assumes "length (saved_pages st) < MIN_PAGES C" and "frontier L S C (url # rest) st = Inr st'"
  shows "\<exists>st1 r. frontier L S C rest st1 = Inr st'
     \<and> requested (world st1) = requested (world st) @ [(url, r)]
     \<and> article_urls st1 = article_urls st
     \<and> (saved_pages st1 = saved_pages st
        \<or> saved_pages st1
            = saved_pages st @ [(Suc (page_counter st), url, page_filename (Suc (page_counter st)))])"
proof -
  define r where "r = fst (requests_get S url (outside (world st)))"
  define w where "w = (world st)\<lparr>outside := snd (requests_get S url (outside (world st))),
      requested := requested (world st) @ [(url, r)]\<rparr>"
  note step = frontier_step [OF assms(1), of L S url rest, unfolded Let_def, folded r_def,
      folded w_def]
  show ?thesis
  proof (cases "truthy (response_text r) \<and> is_text_page L (response_text r)")
    case False
    with assms(2) have "frontier L S C rest (st\<lparr>world := w\<rparr>) = Inr st'"
      unfolding step by simp
    then have "frontier L S C rest (st\<lparr>world := w\<rparr>) = Inr st'
       \<and> requested (world (st\<lparr>world := w\<rparr>)) = requested (world st) @ [(url, r)]
       \<and> article_urls (st\<lparr>world := w\<rparr>) = article_urls st
       \<and> (saved_pages (st\<lparr>world := w\<rparr>) = saved_pages st
          \<or> saved_pages (st\<lparr>world := w\<rparr>) = saved_pages st
              @ [(Suc (page_counter st), url, page_filename (Suc (page_counter st)))])"
      by (simp add: w_def)
    then show ?thesis by blast
  next
    case acc: True
    show ?thesis
    proof (cases "write_file S (os_path_join (OUTPUT_DIR C)
        (page_filename (Suc (page_counter st)))) (the (response_text r)) (outside w)")
      case None
      with acc assms(2) show ?thesis unfolding step by simp
    next
      case (Some out)
      define st1 where "st1 = st\<lparr>page_counter := Suc (page_counter st),
         saved_pages := saved_pages st
           @ [(Suc (page_counter st), url, page_filename (Suc (page_counter st)))],
         index_entries := index_entries st @ [index_entry (Suc (page_counter st)) url],
         world := w\<lparr>outside := out,
           written := written w
             @ [(os_path_join (OUTPUT_DIR C) (page_filename (Suc (page_counter st))),
                 the (response_text r))]\<rparr>\<rparr>"
      from acc Some assms(2) have "frontier L S C rest st1 = Inr st'"
        unfolding step st1_def by simp
      then have "frontier L S C rest st1 = Inr st'
         \<and> requested (world st1) = requested (world st) @ [(url, r)]
         \<and> article_urls st1 = article_urls st
         \<and> (saved_pages st1 = saved_pages st
            \<or> saved_pages st1 = saved_pages st
                @ [(Suc (page_counter st), url, page_filename (Suc (page_counter st)))])"
        by (simp add: st1_def w_def)
      then show ?thesis by blast
    qed
  qed
qed

lemma frontier_count:
  "length (saved_pages st) \<le> MIN_PAGES C \<Longrightarrow> frontier L S C urls st = Inr st'
     \<Longrightarrow> length (saved_pages st') \<le> MIN_PAGES C"
proof (induction urls arbitrary: st)
  case Nil
  then show ?case by simp
next
  case (Cons url rest)
  show ?case
  proof (cases "length (saved_pages st) < MIN_PAGES C")
    case False
    with Cons.prems show ?thesis by simp
  next
    case True
    from frontier_Cons_Inr [OF True Cons.prems(2)] obtain st1 where
      "frontier L S C rest st1 = Inr st'" "length (saved_pages st1) \<le> MIN_PAGES C"
      using True by auto
    then show ?thesis using Cons.IH by blast
  qed
qed

lemma frontier_article_urls:
  "frontier L S C urls st = Inr st' \<Longrightarrow> article_urls st' = article_urls st"
proof (induction urls arbitrary: st)
  case Nil
  then show ?case by simp
next
  case (Cons url rest)
  show ?case
  proof (cases "length (saved_pages st) < MIN_PAGES C")
    case False
    with Cons.prems show ?thesis by simp
  next
    case True
    from frontier_Cons_Inr [OF True Cons.prems] obtain st1 where
      "frontier L S C rest st1 = Inr st'" "article_urls st1 = article_urls st"
      by blast
    then show ?thesis using Cons.IH by metis
  qed
qed

text \<open>The URLs fetched are a prefix of the list; the loop leaves the rest only when the
  target is reached, and it fetches nothing after the page that reaches the target.\<close>

lemma frontier_requested:
  "frontier L S C urls st = Inr st' \<Longrightarrow>
   \<exists>consumed rest rs accepted. urls = consumed @ rest
     \<and> length rs = length consumed
     \<and> requested (world st') = requested (world st) @ zip consumed rs
     \<and> (rest = [] \<or> MIN_PAGES C \<le> length (saved_pages st'))
     \<and> map (\<lambda>(n, url, filename). url) (saved_pages st')
         = map (\<lambda>(n, url, filename). url) (saved_pages st) @ accepted
     \<and> subseq accepted consumed
     \<and> (length (saved_pages st) < MIN_PAGES C \<and> MIN_PAGES C \<le> length (saved_pages st')
          \<longrightarrow> accepted \<noteq> [] \<and> consumed \<noteq> [] \<and> last accepted = last consumed)"
proof (induction urls arbitrary: st)
  case Nil
  then have "[] = [] @ [] \<and> length ([] :: get_result list) = length ([] :: ustr list)
     \<and> requested (world st') = requested (world st) @ zip [] []
     \<and> ([] = [] \<or> MIN_PAGES C \<le> length (saved_pages st'))
     \<and> map (\<lambda>(n, url, filename). url) (saved_pages st')
         = map (\<lambda>(n, url, filename). url) (saved_pages st) @ []
     \<and> subseq [] ([] :: ustr list)
     \<and> (length (saved_pages st) < MIN_PAGES C \<and> MIN_PAGES C \<le> length (saved_pages st')
          \<longrightarrow> ([] :: ustr list) \<noteq> [] \<and> ([] :: ustr list) \<noteq> [] \<and> last [] = last ([] :: ustr list))"
    by auto
  then show ?case by - (intro exI, assumption)
next
  case (Cons url urls)
  show ?case
  proof (cases "length (saved_pages st) < MIN_PAGES C")
    case False
    with Cons.prems have e: "st' = st" by simp
    have "url # urls = [] @ (url # urls)
     \<and> length ([] :: get_result list) = length ([] :: ustr list)
     \<and> requested (world st') = requested (world st) @ zip [] []
     \<and> (url # urls = [] \<or> MIN_PAGES C \<le> length (saved_pages st'))
     \<and> map (\<lambda>(n, url, filename). url) (saved_pages st')
         = map (\<lambda>(n, url, filename). url) (saved_pages st) @ []
     \<and> subseq [] ([] :: ustr list)
     \<and> (length (saved_pages st) < MIN_PAGES C \<and> MIN_PAGES C \<le> length (saved_pages st')
          \<longrightarrow> ([] :: ustr list) \<noteq> [] \<and> ([] :: ustr list) \<noteq> [] \<and> last [] = last ([] :: ustr list))"
      using False by (simp add: e)
    then show ?thesis by - (intro exI, assumption)
  next
    case True
    from frontier_Cons_Inr [OF True Cons.prems] obtain st1 r where
      st1: "frontier L S C urls st1 = Inr st'"
        "requested (world st1) = requested (world st) @ [(url, r)]"
        "saved_pages st1 = saved_pages st
          \<or> saved_pages st1
              = saved_pages st @ [(Suc (page_counter st), url, page_filename (Suc (page_counter st)))]"
      by blast
    from Cons.IH [OF st1(1)] obtain consumed rest rs accepted where
      ih: "urls = consumed @ rest" "length rs = length consumed"
        "requested (world st') = requested (world st1) @ zip consumed rs"
        "rest = [] \<or> MIN_PAGES C \<le> length (saved_pages st')"
        "map (\<lambda>(n, url, filename). url) (saved_pages st')
           = map (\<lambda>(n, url, filename). url) (saved_pages st1) @ accepted"
        "subseq accepted consumed"
        "length (saved_pages st1) < MIN_PAGES C \<and> MIN_PAGES C \<le> length (saved_pages st')
          \<longrightarrow> accepted \<noteq> [] \<and> consumed \<noteq> [] \<and> last accepted = last consumed"
      by blast
    from st1(3) show ?thesis
    proof
      assume same: "saved_pages st1 = saved_pages st"
      have "url # urls = (url # consumed) @ rest
       \<and> length (r # rs) = length (url # consumed)
       \<and> requested (world st') = requested (world st) @ zip (url # consumed) (r # rs)
       \<and> (rest = [] \<or> MIN_PAGES C \<le> length (saved_pages st'))
       \<and> map (\<lambda>(n, url, filename). url) (saved_pages st')
           = map (\<lambda>(n, url, filename). url) (saved_pages st) @ accepted
       \<and> subseq accepted (url # consumed)
       \<and> (length (saved_pages st) < MIN_PAGES C \<and> MIN_PAGES C \<le> length (saved_pages st')
            \<longrightarrow> accepted \<noteq> [] \<and> url # consumed \<noteq> [] \<and> last accepted = last (url # consumed))"
        using ih st1(2) same by auto
      then show ?thesis by - (intro exI, assumption)
    next
      assume more: "saved_pages st1
          = saved_pages st @ [(Suc (page_counter st), url, page_filename (Suc (page_counter st)))]"
      have l: "accepted = [] \<and> consumed = []" if "MIN_PAGES C \<le> length (saved_pages st1)"
      proof -
        from that st1(1) have "st' = st1" by (simp add: frontier_done)
        with ih(3,5) ih(2) show ?thesis by auto
      qed
      have "url # urls = (url # consumed) @ rest
       \<and> length (r # rs) = length (url # consumed)
       \<and> requested (world st') = requested (world st) @ zip (url # consumed) (r # rs)
       \<and> (rest = [] \<or> MIN_PAGES C \<le> length (saved_pages st'))
       \<and> map (\<lambda>(n, url, filename). url) (saved_pages st')
           = map (\<lambda>(n, url, filename). url) (saved_pages st) @ (url # accepted)
       \<and> subseq (url # accepted) (url # consumed)
       \<and> (length (saved_pages st) < MIN_PAGES C \<and> MIN_PAGES C \<le> length (saved_pages st')
            \<longrightarrow> url # accepted \<noteq> [] \<and> url # consumed \<noteq> []
              \<and> last (url # accepted) = last (url # consumed))"
        using ih st1(2) more l by auto
      then show ?thesis by - (intro exI, assumption)
    qed
  qed
qed

section \<open>A whole run\<close>

lemma crawl_Inr:
  assumes "crawl L S C out0 = Inr (n, st)"
  shows "\<exists>out st1 w. os_makedirs S (OUTPUT_DIR C) out0 = Some out
     \<and> frontier L S C (iter_set S (article_urls (collect L S C out))) (collect L S C out) = Inr st1
     \<and> write_index S C (index_entries st1) (world st1) = Inr w
     \<and> st = st1\<lparr>world := w\<rparr> \<and> n = length (saved_pages st1)"
  using assms
  by (auto simp: crawl_def Let_def split: option.splits sum.splits)

lemma write_index_Inr:
  assumes "write_index S C entries w = Inr w'"
  shows "requested w' = requested w
     \<and> written w' = written w @ [(os_path_join (script_dir S) (INDEX_FILE C), index_text entries)]"
  using assms
  by (auto simp: write_index_def Let_def split: option.splits)

lemma archive_ok_collect: "archive_ok C (collect L S C out)"
  using collect_fresh [of L S C out] by (simp add: archive_ok_def)

text \<open>What a run that returns leaves behind.\<close>

lemma crawl_archive:
  assumes "crawl L S C out0 = Inr (n, st)"
  shows "n = length (saved_pages st) \<and> page_counter st = n
     \<and> map fst (saved_pages st) = [1..<Suc n]
     \<and> map (\<lambda>(k, url, filename). filename) (saved_pages st) = map page_filename [1..<Suc n]
     \<and> index_entries st = map (\<lambda>(k, url, filename). index_entry k url) (saved_pages st)
     \<and> map fst (written (world st))
         = map (\<lambda>(k, url, filename). os_path_join (OUTPUT_DIR C) filename) (saved_pages st)
           @ [os_path_join (script_dir S) (INDEX_FILE C)]
     \<and> snd (last (written (world st))) = index_text (index_entries st)
     \<and> n \<le> MIN_PAGES C"
proof -
  from crawl_Inr [OF assms] obtain out st1 w where
    f: "frontier L S C (iter_set S (article_urls (collect L S C out))) (collect L S C out) = Inr st1"
    and i: "write_index S C (index_entries st1) (world st1) = Inr w"
    and st: "st = st1\<lparr>world := w\<rparr>" and n: "n = length (saved_pages st1)"
    by blast
  from frontier_archive_ok [OF archive_ok_collect f] have ok: "archive_ok C st1" .
  have "length (saved_pages (collect L S C out)) \<le> MIN_PAGES C"
    using collect_fresh [of L S C out] by simp
  from frontier_count [OF this f] have le: "length (saved_pages st1) \<le> MIN_PAGES C" .
  from ok le write_index_Inr [OF i] show ?thesis
    unfolding st n archive_ok_def by simp
qed


lemma map_related:
  "map g xs = map f (map h xs) \<Longrightarrow> x \<in> set xs \<Longrightarrow> g x = f (h x)"
  by (induction xs) auto

lemma os_path_join_page:
  "os_path_join dir (page_filename n)
     = (if dir = [] \<or> endswith dir (str_lit ''/'') then dir else dir @ str_lit ''/'')
       @ page_filename n"
  by (simp add: os_path_join_def page_filename_def startswith_def str_lit_def)

lemma os_path_join_page_inj:
  "os_path_join dir (page_filename m) = os_path_join dir (page_filename n) \<Longrightarrow> m = n"
  unfolding os_path_join_page by (simp add: page_filename_inj)

lemma distinct_page_paths:
  "distinct (map (\<lambda>n. os_path_join dir (page_filename n)) [1..<Suc k])"
  by (rule iffD2 [OF distinct_map]) (auto simp: inj_on_def dest: os_path_join_page_inj)

lemma crawl_page_paths:
  assumes "crawl L S C out0 = Inr (k, st)"
  shows "map fst (butlast (written (world st)))
      = map (\<lambda>seq. os_path_join (OUTPUT_DIR C) (page_filename seq)) [1..<Suc k]"
proof -
  note a = crawl_archive [OF assms]
  from a have "map fst (written (world st))
      = map (\<lambda>(k, url, filename). os_path_join (OUTPUT_DIR C) filename) (saved_pages st)
        @ [os_path_join (script_dir S) (INDEX_FILE C)]" by blast
  then have "map fst (butlast (written (world st)))
      = map (\<lambda>(k, url, filename). os_path_join (OUTPUT_DIR C) filename) (saved_pages st)"
    by (metis butlast_snoc map_butlast)
  also have "\<dots> = map (os_path_join (OUTPUT_DIR C))
      (map (\<lambda>(k, url, filename). filename) (saved_pages st))"
    by (simp add: case_prod_beta comp_def)
  also from a have "\<dots> = map (os_path_join (OUTPUT_DIR C)) (map page_filename [1..<Suc k])"
    by simp
  finally show ?thesis
    by (simp add: comp_def)
qed

text \<open>
  C1. In a run that returns \<open>k\<close>, the sequence numbers of the saved pages are
  1, 2, ..., \<open>k\<close> in the order of acceptance: they form the set from 1 to \<open>k\<close> without
  repetition, the counter ends at \<open>k\<close>, and one page file was written per number. The
  file name of the page with number \<open>seq\<close> is \<open>page_\<close>, the decimal digits of \<open>seq\<close>
  padded with zeros to four places, and \<open>.txt\<close>; the padded number has exactly four
  digits as long as the target is below 10000.
\<close>

theorem sequence_numbers_dense:
  assumes "crawl L S C out0 = Inr (k, st)"
  shows "map fst (saved_pages st) = [1..<Suc k]
     \<and> set (map fst (saved_pages st)) = {1..k}
     \<and> distinct (map fst (saved_pages st))
     \<and> length (saved_pages st) = k \<and> page_counter st = k
     \<and> (\<forall>(seq, url, filename) \<in> set (saved_pages st).
          filename = str_lit ''page_'' @ format_04d seq @ str_lit ''.txt''
          \<and> digits_value (format_04d seq) = seq
          \<and> (MIN_PAGES C < 10000 \<longrightarrow> length (format_04d seq) = 4))
     \<and> map fst (butlast (written (world st)))
         = map (\<lambda>seq. os_path_join (OUTPUT_DIR C) (page_filename seq)) [1..<Suc k]"
proof -
  note a = crawl_archive [OF assms]
  from a have m: "map fst (saved_pages st) = [1..<Suc k]" by blast
  have s: "set (map fst (saved_pages st)) = {1..k}"
    unfolding m by auto
  have d: "distinct (map fst (saved_pages st))"
    unfolding m by simp
  have f: "filename = str_lit ''page_'' @ format_04d seq @ str_lit ''.txt''
          \<and> digits_value (format_04d seq) = seq
          \<and> (MIN_PAGES C < 10000 \<longrightarrow> length (format_04d seq) = 4)"
    if x: "(seq, url, filename) \<in> set (saved_pages st)" for seq url filename
  proof -
    from a have "map (\<lambda>(k, url, filename). filename) (saved_pages st)
        = map page_filename (map fst (saved_pages st))"
      unfolding m by blast
    from map_related [OF this x] have "filename = page_filename seq" by simp
    moreover from x have "seq \<in> set (map fst (saved_pages st))" by force
    then have "seq \<le> k" unfolding s by simp
    moreover from a have "k \<le> MIN_PAGES C" by blast
    ultimately show ?thesis
      by (simp add: page_filename_def digits_value_format_04d length_format_04d)
  qed
  note w = crawl_page_paths [OF assms]
  from a m s d f w show ?thesis by blast
qed

section \<open>The index file\<close>

lemma line_count_append [simp]: "line_count (a @ b) = line_count a + line_count b"
  by (simp add: line_count_def)

lemma line_count_Nil [simp]: "line_count [] = 0"
  by (simp add: line_count_def)

lemma line_count_Cons [simp]: "line_count (c # s) = (if c = 10 then 1 else 0) + line_count s"
  by (simp add: line_count_def)

lemma line_count_header: "line_count index_header = 2"
  by (simp add: index_header_def line_count_def str_lit_def)

lemma line_count_none: "10 \<notin> set s \<Longrightarrow> line_count s = 0"
  by (induction s) auto

lemma line_count_str_nat: "line_count (str_nat n) = 0"
  using str_nat_digits [of 10 n] by (intro line_count_none) auto

lemma line_count_entries:
  "line_count (concat (map (\<lambda>entry. entry @ [10]) entries))
     = length entries + sum_list (map line_count entries)"
  by (induction entries) simp_all

lemma index_path_not_page:
  assumes "INDEX_FILE C = str_lit ''index.txt''"
  shows "os_path_join sd (INDEX_FILE C) \<noteq> os_path_join dir (page_filename n)"
proof
  assume e: "os_path_join sd (INDEX_FILE C) = os_path_join dir (page_filename n)"
  define x where "x = (if sd = [] \<or> endswith sd (str_lit ''/'') then sd else sd @ str_lit ''/'')"
  have x: "os_path_join sd (INDEX_FILE C) = (x @ str_lit ''inde'') @ str_lit ''x.txt''"
    by (simp add: assms os_path_join_def startswith_def str_lit_def x_def)
  define y where "y = (if dir = [] \<or> endswith dir (str_lit ''/'') then dir
      else dir @ str_lit ''/'') @ str_lit ''page_''"
  have y: "os_path_join dir (page_filename n) = y @ format_04d n @ str_lit ''.txt''"
    unfolding os_path_join_page by (simp add: page_filename_def y_def)
  have f: "format_04d n = butlast (format_04d n) @ [last (format_04d n)]"
    using format_04d_nonempty by simp
  have "(x @ str_lit ''inde'') @ str_lit ''x.txt''
      = (y @ butlast (format_04d n)) @ (last (format_04d n) # str_lit ''.txt'')"
    using e x y f by (metis append.assoc append_Cons append_Nil)
  then have "str_lit ''x.txt'' = last (format_04d n) # str_lit ''.txt''"
    by (subst (asm) append_eq_append_conv) (simp_all add: str_lit_def)
  then have "last (format_04d n) = 120"
    by (simp add: str_lit_def)
  moreover have "last (format_04d n) \<in> set (format_04d n)"
    using format_04d_nonempty by simp
  ultimately show False
    using format_04d_digits [of 120 n] by auto
qed


section \<open>How the download loop ends\<close>

lemma subseq_distinct: "subseq xs ys \<Longrightarrow> distinct ys \<Longrightarrow> distinct xs"
  using set_subseqs_eq [of ys] subseqs_distinctD [of xs ys] by auto

lemma subseq_subset: "subseq xs ys \<Longrightarrow> set xs \<subseteq> set ys"
  by (auto dest: list_emb_set)

text \<open>A run that returns, taken apart: the walker's state, and what the loop added.\<close>

lemma crawl_frontier:
  assumes "crawl L S C out0 = Inr (k, st)"
  shows "\<exists>out consumed rest rs. os_makedirs S (OUTPUT_DIR C) out0 = Some out
     \<and> article_urls st = article_urls (collect L S C out)
     \<and> iter_set S (article_urls (collect L S C out)) = consumed @ rest
     \<and> length rs = length consumed
     \<and> requested (world st) = requested (world (collect L S C out)) @ zip consumed rs
     \<and> (rest = [] \<or> k = MIN_PAGES C)
     \<and> subseq (map (\<lambda>(n, url, filename). url) (saved_pages st)) consumed
     \<and> (0 < MIN_PAGES C \<and> k = MIN_PAGES C
          \<longrightarrow> consumed \<noteq> [] \<and> saved_pages st \<noteq> []
            \<and> (\<lambda>(n, url, filename). url) (last (saved_pages st)) = last consumed)"
proof -
  from crawl_Inr [OF assms] obtain out st1 w where
    mk: "os_makedirs S (OUTPUT_DIR C) out0 = Some out"
    and f: "frontier L S C (iter_set S (article_urls (collect L S C out))) (collect L S C out)
        = Inr st1"
    and i: "write_index S C (index_entries st1) (world st1) = Inr w"
    and st: "st = st1\<lparr>world := w\<rparr>" and k: "k = length (saved_pages st1)"
    by blast
  from crawl_archive [OF assms] have le: "k \<le> MIN_PAGES C" by blast
  have fresh: "saved_pages (collect L S C out) = []"
    using collect_fresh [of L S C out] by simp
  from frontier_requested [OF f] obtain consumed rest rs accepted where
    r: "iter_set S (article_urls (collect L S C out)) = consumed @ rest"
      "length rs = length consumed"
      "requested (world st1) = requested (world (collect L S C out)) @ zip consumed rs"
      "rest = [] \<or> MIN_PAGES C \<le> length (saved_pages st1)"
      "map (\<lambda>(n, url, filename). url) (saved_pages st1)
         = map (\<lambda>(n, url, filename). url) (saved_pages (collect L S C out)) @ accepted"
      "subseq accepted consumed"
      "length (saved_pages (collect L S C out)) < MIN_PAGES C
         \<and> MIN_PAGES C \<le> length (saved_pages st1)
        \<longrightarrow> accepted \<noteq> [] \<and> consumed \<noteq> [] \<and> last accepted = last consumed"
    by blast
  from r(5) have acc: "accepted = map (\<lambda>(n, url, filename). url) (saved_pages st)"
    by (simp add: fresh st)
  have 1: "article_urls st = article_urls (collect L S C out)"
    using frontier_article_urls [OF f] by (simp add: st)
  have 2: "requested (world st) = requested (world (collect L S C out)) @ zip consumed rs"
    using r(3) write_index_Inr [OF i] by (simp add: st)
  have 3: "rest = [] \<or> k = MIN_PAGES C"
    using r(4) le k by auto
  have 4: "subseq (map (\<lambda>(n, url, filename). url) (saved_pages st)) consumed"
    using r(6) acc by simp
  have 5: "0 < MIN_PAGES C \<and> k = MIN_PAGES C
          \<longrightarrow> consumed \<noteq> [] \<and> saved_pages st \<noteq> []
            \<and> (\<lambda>(n, url, filename). url) (last (saved_pages st)) = last consumed"
  proof
    assume h: "0 < MIN_PAGES C \<and> k = MIN_PAGES C"
    with r(7) k fresh have x: "accepted \<noteq> []" "consumed \<noteq> []" "last accepted = last consumed"
      by auto
    from x(1) acc have ne: "saved_pages st \<noteq> []" by auto
    from x(3) acc ne have "(\<lambda>(n, url, filename). url) (last (saved_pages st)) = last consumed"
      by (simp add: last_map)
    with x(2) ne show "consumed \<noteq> [] \<and> saved_pages st \<noteq> []
        \<and> (\<lambda>(n, url, filename). url) (last (saved_pages st)) = last consumed"
      by blast
  qed
  from mk 1 r(1) r(2) 2 3 4 5 show ?thesis
    by - (intro exI conjI, assumption+)
qed

lemma frontier_all_good:
  assumes disk: "\<forall>filepath content out. write_file S filepath content out \<noteq> None"
  shows "length (saved_pages st) \<le> MIN_PAGES C \<Longrightarrow>
     \<forall>url \<in> set urls. \<forall>out. truthy (response_text (fst (requests_get S url out)))
        \<and> is_text_page L (response_text (fst (requests_get S url out))) \<Longrightarrow>
     \<exists>st'. frontier L S C urls st = Inr st'
        \<and> length (saved_pages st') = min (MIN_PAGES C) (length (saved_pages st) + length urls)"
proof (induction urls arbitrary: st)
  case Nil
  then show ?case by simp
next
  case (Cons url rest)
  show ?case
  proof (cases "length (saved_pages st) < MIN_PAGES C")
    case False
    with Cons.prems(1) show ?thesis by simp
  next
    case True
    define r where "r = fst (requests_get S url (outside (world st)))"
    define w where "w = (world st)\<lparr>outside := snd (requests_get S url (outside (world st))),
        requested := requested (world st) @ [(url, r)]\<rparr>"
    note step = frontier_step [OF True, of L S url rest, unfolded Let_def, folded r_def,
        folded w_def]
    from Cons.prems(2) have good: "truthy (response_text r) \<and> is_text_page L (response_text r)"
      by (simp add: r_def)
    from disk obtain out where o: "write_file S (os_path_join (OUTPUT_DIR C)
        (page_filename (Suc (page_counter st)))) (the (response_text r)) (outside w) = Some out"
      by (metis not_None_eq)
    define st1 where "st1 = st\<lparr>page_counter := Suc (page_counter st),
       saved_pages := saved_pages st
         @ [(Suc (page_counter st), url, page_filename (Suc (page_counter st)))],
       index_entries := index_entries st @ [index_entry (Suc (page_counter st)) url],
       world := w\<lparr>outside := out,
         written := written w
           @ [(os_path_join (OUTPUT_DIR C) (page_filename (Suc (page_counter st))),
               the (response_text r))]\<rparr>\<rparr>"
    have s: "frontier L S C (url # rest) st = frontier L S C rest st1"
      unfolding step st1_def using good o by simp
    have "length (saved_pages st1) \<le> MIN_PAGES C"
      using True by (simp add: st1_def)
    moreover from Cons.prems(2) have "\<forall>url \<in> set rest. \<forall>out.
        truthy (response_text (fst (requests_get S url out)))
        \<and> is_text_page L (response_text (fst (requests_get S url out)))" by simp
    ultimately obtain st' where "frontier L S C rest st1 = Inr st'"
      "length (saved_pages st') = min (MIN_PAGES C) (length (saved_pages st1) + length rest)"
      using Cons.IH by blast
    then have "frontier L S C (url # rest) st = Inr st'
        \<and> length (saved_pages st')
            = min (MIN_PAGES C) (length (saved_pages st) + length (url # rest))"
      unfolding s by (simp add: st1_def)
    then show ?thesis by blast
  qed
qed

text \<open>
  C6. In a run that returns \<open>k\<close>: \<open>k\<close> is the number of pages saved, of records in the
  index and of page files written, and at most the target. The loop fetched a prefix of
  the candidates, in the order of iteration; when it left candidates unfetched the
  target was reached, and when the target was reached the last URL fetched is the one
  of the last page saved, so nothing was fetched after it. When the directory can be
  made, every write succeeds and every candidate is fetched as a text page, the run
  returns the smaller of the target and the number of candidates (5, for 5 candidates
  and a target of 10).
\<close>

theorem frontier_target_or_exhausted:
  "(\<forall>k st. crawl L S C out0 = Inr (k, st) \<longrightarrow>
      k = length (saved_pages st) \<and> k \<le> MIN_PAGES C
      \<and> length (index_entries st) = k \<and> length (butlast (written (world st))) = k
      \<and> (\<exists>out consumed rest rs. os_makedirs S (OUTPUT_DIR C) out0 = Some out
            \<and> iter_set S (article_urls (collect L S C out)) = consumed @ rest
            \<and> length rs = length consumed
            \<and> requested (world st) = requested (world (collect L S C out)) @ zip consumed rs
            \<and> (rest = [] \<or> k = MIN_PAGES C)
            \<and> (0 < MIN_PAGES C \<and> k = MIN_PAGES C
                 \<longrightarrow> consumed \<noteq> [] \<and> saved_pages st \<noteq> []
                   \<and> (\<lambda>(n, url, filename). url) (last (saved_pages st)) = last consumed)))
   \<and> (\<forall>out. os_makedirs S (OUTPUT_DIR C) out0 = Some out
         \<and> (\<forall>filepath content out'. write_file S filepath content out' \<noteq> None)
         \<and> distinct (iter_set S (article_urls (collect L S C out)))
         \<and> set (iter_set S (article_urls (collect L S C out))) = article_urls (collect L S C out)
         \<and> (\<forall>url \<in> article_urls (collect L S C out). \<forall>out'.
               truthy (response_text (fst (requests_get S url out')))
               \<and> is_text_page L (response_text (fst (requests_get S url out'))))
        \<longrightarrow> (\<exists>st. crawl L S C out0
                    = Inr (min (MIN_PAGES C) (card (article_urls (collect L S C out))), st)))"
proof (intro conjI allI impI)
  fix k st
  assume run: "crawl L S C out0 = Inr (k, st)"
  note a = crawl_archive [OF run]
  from a show "k = length (saved_pages st)" by blast
  from a show "k \<le> MIN_PAGES C" by blast
  from a show "length (index_entries st) = k" by simp
  from crawl_page_paths [OF run] show "length (butlast (written (world st))) = k"
    by (metis diff_Suc_1 length_map length_upt)
  from crawl_frontier [OF run] obtain out consumed rest rs where
    x: "os_makedirs S (OUTPUT_DIR C) out0 = Some out"
      "iter_set S (article_urls (collect L S C out)) = consumed @ rest"
      "length rs = length consumed"
      "requested (world st) = requested (world (collect L S C out)) @ zip consumed rs"
      "rest = [] \<or> k = MIN_PAGES C"
      "0 < MIN_PAGES C \<and> k = MIN_PAGES C
          \<longrightarrow> consumed \<noteq> [] \<and> saved_pages st \<noteq> []
            \<and> (\<lambda>(n, url, filename). url) (last (saved_pages st)) = last consumed"
    by blast
  then show "\<exists>out consumed rest rs. os_makedirs S (OUTPUT_DIR C) out0 = Some out
            \<and> iter_set S (article_urls (collect L S C out)) = consumed @ rest
            \<and> length rs = length consumed
            \<and> requested (world st) = requested (world (collect L S C out)) @ zip consumed rs
            \<and> (rest = [] \<or> k = MIN_PAGES C)
            \<and> (0 < MIN_PAGES C \<and> k = MIN_PAGES C
                 \<longrightarrow> consumed \<noteq> [] \<and> saved_pages st \<noteq> []
                   \<and> (\<lambda>(n, url, filename). url) (last (saved_pages st)) = last consumed)"
    by - (intro exI conjI, assumption+)
next
  fix out
  assume h: "os_makedirs S (OUTPUT_DIR C) out0 = Some out
         \<and> (\<forall>filepath content out'. write_file S filepath content out' \<noteq> None)
         \<and> distinct (iter_set S (article_urls (collect L S C out)))
         \<and> set (iter_set S (article_urls (collect L S C out))) = article_urls (collect L S C out)
         \<and> (\<forall>url \<in> article_urls (collect L S C out). \<forall>out'.
               truthy (response_text (fst (requests_get S url out')))
               \<and> is_text_page L (response_text (fst (requests_get S url out'))))"
  let ?urls = "iter_set S (article_urls (collect L S C out))"
  from h have disk: "\<forall>filepath content out'. write_file S filepath content out' \<noteq> None"
    by blast
  have "length (saved_pages (collect L S C out)) \<le> MIN_PAGES C"
    using collect_fresh [of L S C out] by simp
  moreover from h have "\<forall>url \<in> set ?urls. \<forall>out'.
      truthy (response_text (fst (requests_get S url out')))
      \<and> is_text_page L (response_text (fst (requests_get S url out')))" by simp
  ultimately obtain st1 where f: "frontier L S C ?urls (collect L S C out) = Inr st1"
    and n: "length (saved_pages st1)
        = min (MIN_PAGES C) (length (saved_pages (collect L S C out)) + length ?urls)"
    using frontier_all_good [OF disk] by blast
  from h have "length ?urls = card (article_urls (collect L S C out))"
    by (metis distinct_card)
  with n have n': "length (saved_pages st1)
      = min (MIN_PAGES C) (card (article_urls (collect L S C out)))"
    using collect_fresh [of L S C out] by simp
  from disk obtain o' where "write_file S (os_path_join (script_dir S) (INDEX_FILE C))
      (index_text (index_entries st1)) (outside (world st1)) = Some o'"
    by (metis not_None_eq)
  then have "\<exists>w. write_index S C (index_entries st1) (world st1) = Inr w"
    by (simp add: write_index_def Let_def)
  then obtain w where "write_index S C (index_entries st1) (world st1) = Inr w" ..
  with h f n' have "crawl L S C out0
      = Inr (min (MIN_PAGES C) (card (article_urls (collect L S C out))), st1\<lparr>world := w\<rparr>)"
    by (simp add: crawl_def Let_def)
  then show "\<exists>st. crawl L S C out0
      = Inr (min (MIN_PAGES C) (card (article_urls (collect L S C out))), st)" ..
qed

section \<open>No URL is fetched twice\<close>

lemma collect_listing:
  "\<exists>j \<le> 30. map fst (requested (world (collect L S C out)))
      = NEWS_URL C # map (paginated_url C) [1..<Suc j]"
proof -
  from collect_requested [of L S C out] obtain r0 rs where
    len: "length rs \<le> 30"
    and log: "requested (world (collect L S C out))
         = (NEWS_URL C, r0) # zip (map (paginated_url C) [1..<31]) rs"
    by blast
  have "map fst (zip (map (paginated_url C) [1..<31]) rs)
      = take (min (length (map (paginated_url C) [1..<31])) (length rs))
          (map (paginated_url C) [1..<31])"
    by (rule map_fst_zip_take)
  also have "\<dots> = take (length rs) (map (paginated_url C) [1..<31])"
    using len by simp
  also have "\<dots> = map (paginated_url C) [1..<Suc (length rs)]"
    using len by (simp add: take_map take_upt del: upt_Suc)
  finally have "map fst (requested (world (collect L S C out)))
      = NEWS_URL C # map (paginated_url C) [1..<Suc (length rs)]"
    unfolding log by simp
  with len show ?thesis by (intro exI [of _ "length rs"]) simp
qed

lemma distinct_listing: "distinct (NEWS_URL C # map (paginated_url C) [1..<Suc j])"
proof -
  have "distinct (map (paginated_url C) [1..<Suc j])"
    by (rule iffD2 [OF distinct_map]) (auto simp: inj_on_def dest: paginated_url_inj)
  moreover have "NEWS_URL C \<notin> set (map (paginated_url C) [1..<Suc j])"
  proof
    assume "NEWS_URL C \<in> set (map (paginated_url C) [1..<Suc j])"
    then obtain n where "paginated_url C n = NEWS_URL C"
      unfolding set_map by (elim imageE) simp
    with paginated_url_not_listing show False by blast
  qed
  ultimately show ?thesis by simp
qed

lemma candidate_not_listing_path:
  assumes "url \<in> article_urls (collect L S C out)"
  shows "str_lower L (path (urlparse L url)) \<noteq> str_lit ''/news''
     \<and> str_lower L (path (urlparse L url)) \<noteq> str_lit ''/news/''"
proof -
  from collect_article_urls [OF assms] obtain h where "url \<in> extract_article_links L C h" ..
  then obtain href where u: "url = urljoin L (BASE_URL C) href" and k: "keeps L C href"
    unfolding extract_article_links_eq by blast
  from keeps_scope [OF k] show ?thesis
    unfolding u by blast
qed


section \<open>The first run, step by step\<close>

lemma join_1:
  "ref_urljoin (str_lit ''https://media.kpfu.ru'') (str_lit ''/news/1'')
     = str_lit ''https://media.kpfu.ru/news/1''"
  by (simp add: url_defs str_lit_def Let_def)

lemma parse_1:
  "ref_urlparse (str_lit ''https://media.kpfu.ru/news/1'')
     = \<lparr>scheme = str_lit ''https'', netloc = str_lit ''media.kpfu.ru'', path = str_lit ''/news/1'',
        params = [], query = [], fragment = []\<rparr>"
  by (simp add: url_defs str_lit_def Let_def)

lemma join_2:
  "ref_urljoin (str_lit ''https://media.kpfu.ru'') (str_lit ''/news/2'')
     = str_lit ''https://media.kpfu.ru/news/2''"
  by (simp add: url_defs str_lit_def Let_def)

lemma parse_2:
  "ref_urlparse (str_lit ''https://media.kpfu.ru/news/2'')
     = \<lparr>scheme = str_lit ''https'', netloc = str_lit ''media.kpfu.ru'', path = str_lit ''/news/2'',
        params = [], query = [], fragment = []\<rparr>"
  by (simp add: url_defs str_lit_def Let_def)

lemma join_3:
  "ref_urljoin (str_lit ''https://media.kpfu.ru'') (str_lit ''/news/3'')
     = str_lit ''https://media.kpfu.ru/news/3''"
  by (simp add: url_defs str_lit_def Let_def)

lemma parse_3:
  "ref_urlparse (str_lit ''https://media.kpfu.ru/news/3'')
     = \<lparr>scheme = str_lit ''https'', netloc = str_lit ''media.kpfu.ru'', path = str_lit ''/news/3'',
        params = [], query = [], fragment = []\<rparr>"
  by (simp add: url_defs str_lit_def Let_def)

lemma join_4:
  "ref_urljoin (str_lit ''https://media.kpfu.ru'') (str_lit ''/news/4'')
     = str_lit ''https://media.kpfu.ru/news/4''"
  by (simp add: url_defs str_lit_def Let_def)

lemma parse_4:
  "ref_urlparse (str_lit ''https://media.kpfu.ru/news/4'')
     = \<lparr>scheme = str_lit ''https'', netloc = str_lit ''media.kpfu.ru'', path = str_lit ''/news/4'',
        params = [], query = [], fragment = []\<rparr>"
  by (simp add: url_defs str_lit_def Let_def)

lemma join_5:
  "ref_urljoin (str_lit ''https://media.kpfu.ru'') (str_lit ''/news/5'')
     = str_lit ''https://media.kpfu.ru/news/5''"
  by (simp add: url_defs str_lit_def Let_def)

lemma parse_5:
  "ref_urlparse (str_lit ''https://media.kpfu.ru/news/5'')
     = \<lparr>scheme = str_lit ''https'', netloc = str_lit ''media.kpfu.ru'', path = str_lit ''/news/5'',
        params = [], query = [], fragment = []\<rparr>"
  by (simp add: url_defs str_lit_def Let_def)

lemma five_config_sel [simp]:
  "BASE_URL five_config = str_lit ''https://media.kpfu.ru''"
  "NEWS_URL five_config = str_lit ''https://media.kpfu.ru/news''"
  "OUTPUT_DIR five_config = str_lit ''crawl_output''"
  "INDEX_FILE five_config = str_lit ''index.txt''"
  "MIN_PAGES five_config = 10"
  by (simp_all add: five_config_def settings_def)

lemma ref_system_sel [simp]:
  "requests_get (ref_system site order) url out
     = (case map_of site url of Some r \<Rightarrow> r | None \<Rightarrow> Response 404 [], out)"
  "os_makedirs (ref_system site order) dir out = Some out"
  "write_file (ref_system site order) filepath content out = Some out"
  "script_dir (ref_system site order) = str_lit ''/srv/crawler''"
  "iter_set (ref_system site order) urls = filter (\<lambda>url. url \<in> urls) order"
  by (simp_all add: ref_system_def)

lemma visit_five:
  "visit_href five_library five_config (str_lit ''/news/1'') links
     = insert (str_lit ''https://media.kpfu.ru/news/1'') links"
  "visit_href five_library five_config (str_lit ''/news/2'') links
     = insert (str_lit ''https://media.kpfu.ru/news/2'') links"
  "visit_href five_library five_config (str_lit ''/news/3'') links
     = insert (str_lit ''https://media.kpfu.ru/news/3'') links"
  "visit_href five_library five_config (str_lit ''/news/4'') links
     = insert (str_lit ''https://media.kpfu.ru/news/4'') links"
  "visit_href five_library five_config (str_lit ''/news/5'') links
     = insert (str_lit ''https://media.kpfu.ru/news/5'') links"
  unfolding visit_href_def five_library_def ref_library_sel five_config_sel parse_base
    join_1 parse_1 join_2 parse_2 join_3 parse_3 join_4 parse_4 join_5 parse_5 Let_def
  by (simp_all add: str_lit_def startswith_def endswith_def blocked_extensions_def ascii_lower_def)

lemma html_distinct:
  "listing_html \<noteq> last_html" "listing_html \<noteq> article_html" "last_html \<noteq> article_html"
  "listing_html \<noteq> []" "last_html \<noteq> []" "article_html \<noteq> []"
  by (simp_all add: listing_html_def last_html_def article_html_def str_lit_def)

lemma five_parse:
  "BeautifulSoup five_library listing_html
     = Doc [str_lit ''/news/1'', str_lit ''/news/2'', str_lit ''/news/3'', str_lit ''/news/4'',
            str_lit ''/news/5''] (str_lit ''12345'')"
  "BeautifulSoup five_library last_html = Doc [] (str_lit ''no more news'')"
  "BeautifulSoup five_library article_html = Doc [] cyrillic_text"
  using html_distinct by (simp_all add: five_library_def ref_parse_def)

lemma five_extract:
  "extract_article_links five_library five_config listing_html = five_urls"
  "extract_article_links five_library five_config last_html = {}"
proof -
  show "extract_article_links five_library five_config listing_html = five_urls"
    unfolding extract_article_links_def five_parse Let_def
    by (auto simp: five_library_def visit_five [unfolded five_library_def] five_urls_def five_order_def)
  show "extract_article_links five_library five_config last_html = {}"
    unfolding extract_article_links_def five_parse Let_def
    by (simp add: five_library_def)
qed

lemma five_urls_nonempty: "five_urls \<noteq> {}"
  by (simp add: five_urls_def five_order_def)

lemma five_pages:
  "paginated_url five_config 1 = str_lit ''https://media.kpfu.ru/news?page=1''"
  "paginated_url five_config (Suc 0) = str_lit ''https://media.kpfu.ru/news?page=1''"
  "paginated_url five_config 2 = str_lit ''https://media.kpfu.ru/news?page=2''"
  "paginated_url five_config 3 = str_lit ''https://media.kpfu.ru/news?page=3''"
  by (simp_all add: paginated_url_def str_nat.simps str_lit_def)

lemma five_site_lookup:
  "map_of five_site (str_lit ''https://media.kpfu.ru/news'') = Some (Response 200 listing_html)"
  "map_of five_site (str_lit ''https://media.kpfu.ru/news?page=1'') = Some (Response 200 listing_html)"
  "map_of five_site (str_lit ''https://media.kpfu.ru/news?page=2'') = Some (Response 200 listing_html)"
  "map_of five_site (str_lit ''https://media.kpfu.ru/news?page=3'') = Some (Response 200 last_html)"
  "map_of five_site (str_lit ''https://media.kpfu.ru/news/1'') = Some (Response 200 article_html)"
  "map_of five_site (str_lit ''https://media.kpfu.ru/news/2'') = Some (Response 200 article_html)"
  "map_of five_site (str_lit ''https://media.kpfu.ru/news/3'') = Some (Response 200 article_html)"
  "map_of five_site (str_lit ''https://media.kpfu.ru/news/4'') = Some (Response 200 article_html)"
  "map_of five_site (str_lit ''https://media.kpfu.ru/news/5'') = Some (Response 200 article_html)"
  by (simp_all add: five_site_def str_lit_def)

lemma five_collect: "collect five_library five_system five_config () = five_collected"
proof -
  have u: "[1..<30 + 1] = 1 # 2 # 3 # [4..<31]"
    by (simp add: upt_rec)
  show ?thesis
    unfolding collect_def Let_def u
    by (simp add: fetch_page_def five_system_def five_site_lookup five_pages five_extract
        html_distinct five_urls_nonempty raise_for_status_def five_collected_def
        five_listing_log_def del: upt_Suc)
qed


lemma five_iter: "iter_set five_system five_urls = five_order"
  by (simp add: five_system_def five_urls_def)

lemma article_is_text: "is_text_page five_library (Some article_html)"
  using html_distinct
  by (simp add: is_text_page_def five_library_def ref_parse_def length_texts search_texts)

lemma replicate_eval:
  "replicate 3 (48::nat) = [48, 48, 48]"
  "replicate 60 (61::nat) = str_lit ''============================================================''"
  by code_simp+

lemma suc_numerals:
  "Suc (Suc 0) = 2" "Suc 2 = 3" "Suc 3 = 4" "Suc 4 = 5"
  by simp_all

lemma page_filenames:
  "page_filename (Suc 0) = str_lit ''page_0001.txt''"
  "page_filename 2 = str_lit ''page_0002.txt''"
  "page_filename 3 = str_lit ''page_0003.txt''"
  "page_filename 4 = str_lit ''page_0004.txt''"
  "page_filename 5 = str_lit ''page_0005.txt''"
  by (simp_all add: page_filename_def format_04d_def str_nat.simps replicate_eval str_lit_def)

lemma page_paths:
  "os_path_join (str_lit ''crawl_output'') (str_lit ''page_0001.txt'')
     = str_lit ''crawl_output/page_0001.txt''"
  "os_path_join (str_lit ''crawl_output'') (str_lit ''page_0002.txt'')
     = str_lit ''crawl_output/page_0002.txt''"
  "os_path_join (str_lit ''crawl_output'') (str_lit ''page_0003.txt'')
     = str_lit ''crawl_output/page_0003.txt''"
  "os_path_join (str_lit ''crawl_output'') (str_lit ''page_0004.txt'')
     = str_lit ''crawl_output/page_0004.txt''"
  "os_path_join (str_lit ''crawl_output'') (str_lit ''page_0005.txt'')
     = str_lit ''crawl_output/page_0005.txt''"
  "os_path_join (str_lit ''/srv/crawler'') (str_lit ''index.txt'')
     = str_lit ''/srv/crawler/index.txt''"
  by (simp_all add: os_path_join_def startswith_def endswith_def str_lit_def)

lemma index_entries_eval:
  "index_entry (Suc 0) url = str_lit ''1'' @ [9] @ url"
  "index_entry 2 url = str_lit ''2'' @ [9] @ url"
  "index_entry 3 url = str_lit ''3'' @ [9] @ url"
  "index_entry 4 url = str_lit ''4'' @ [9] @ url"
  "index_entry 5 url = str_lit ''5'' @ [9] @ url"
  by (simp_all add: index_entry_def str_nat.simps str_lit_def)

lemma five_index:
  "index_text
     [str_lit ''1'' @ [9] @ str_lit ''https://media.kpfu.ru/news/3'',
      str_lit ''2'' @ [9] @ str_lit ''https://media.kpfu.ru/news/1'',
      str_lit ''3'' @ [9] @ str_lit ''https://media.kpfu.ru/news/5'',
      str_lit ''4'' @ [9] @ str_lit ''https://media.kpfu.ru/news/2'',
      str_lit ''5'' @ [9] @ str_lit ''https://media.kpfu.ru/news/4'']
   = five_index_text"
  by (simp add: index_text_def index_header_def five_index_text_def replicate_eval str_lit_def)

lemma five_run: "crawl five_library five_system five_config () = Inr (5, five_final)"
proof -
  have f: "frontier five_library five_system five_config five_order five_collected
      = Inr (five_final\<lparr>world := (world five_final)\<lparr>written :=
          butlast (written (world five_final))\<rparr>\<rparr>)"
    unfolding five_order_def five_collected_def
    by (simp add: fetch_page_def save_page_def five_system_def five_site_lookup html_distinct
        article_is_text raise_for_status_def page_filenames page_paths index_entries_eval
        five_final_def five_order_def Let_def suc_numerals)
  have s: "os_makedirs five_system dir out = Some out"
    "write_file five_system filepath content out = Some out"
    "script_dir five_system = str_lit ''/srv/crawler''" for dir filepath content out
    by (simp_all add: five_system_def)
  have a: "article_urls five_collected = five_urls"
    by (simp add: five_collected_def)
  show ?thesis
    using five_index
    by (simp add: crawl_def Let_def s five_collect a five_iter f write_index_def five_final_def
        page_paths)
qed

section \<open>The properties on the first run\<close>

lemma five_order_distinct: "distinct five_order"
  by (simp add: five_order_def str_lit_def)

lemma five_final_sel:
  "article_urls five_final = five_urls"
  "page_counter five_final = 5"
  "requested (world five_final)
     = five_listing_log @ map (\<lambda>url. (url, Response 200 article_html)) five_order"
  by (simp_all add: five_final_def)

theorem pagination_stops_witness:
  "(paginated_url five_config 3, Response 200 last_html)
      \<in> set (requested (world (collect five_library five_system five_config ())))
   \<and> page_ends five_library five_config (Response 200 last_html)
   \<and> paginated_url five_config (Suc 3)
      \<notin> fst ` set (requested (world (collect five_library five_system five_config ())))"
proof -
  have m: "(paginated_url five_config 3, Response 200 last_html)
      \<in> set (requested (world (collect five_library five_system five_config ())))"
    by (simp add: five_collect five_collected_def five_listing_log_def five_pages)
  have e: "page_ends five_library five_config (Response 200 last_html)"
    by (simp add: page_ends_def raise_for_status_def five_extract)
  from pagination_stops [of five_config five_library five_system "()"] m e
  have "paginated_url five_config (Suc 3)
      \<notin> fst ` set (requested (world (collect five_library five_system five_config ())))"
    by blast
  with m e show ?thesis by blast
qed

theorem sequence_numbers_dense_witness:
  "crawl five_library five_system five_config () = Inr (5, five_final)
   \<and> set (map fst (saved_pages five_final)) = {1..5}
   \<and> page_counter five_final = 5
   \<and> map (\<lambda>(seq, url, filename). filename) (saved_pages five_final)
       = [str_lit ''page_0001.txt'', str_lit ''page_0002.txt'', str_lit ''page_0003.txt'',
          str_lit ''page_0004.txt'', str_lit ''page_0005.txt'']"
proof -
  from sequence_numbers_dense [OF five_run]
  have "set (map fst (saved_pages five_final)) = {1..5}" by blast
  then show ?thesis
    using five_run by (simp add: five_final_def)
qed



lemma five_good:
  "url \<in> five_urls \<Longrightarrow>
     truthy (response_text (fst (requests_get five_system url out)))
     \<and> is_text_page five_library (response_text (fst (requests_get five_system url out)))"
  by (auto simp: five_urls_def five_order_def five_system_def five_site_lookup
      raise_for_status_def html_distinct article_is_text)

theorem frontier_target_or_exhausted_witness:
  "MIN_PAGES five_config = 10
   \<and> card (article_urls (collect five_library five_system five_config ())) = 5
   \<and> (\<exists>st. crawl five_library five_system five_config () = Inr (min 10 5, st))
   \<and> crawl five_library five_system five_config () = Inr (5, five_final)
   \<and> length (saved_pages five_final) = 5 \<and> length (index_entries five_final) = 5"
proof -
  note t = frontier_target_or_exhausted [of five_library five_system five_config "()"]
  have c: "article_urls (collect five_library five_system five_config ()) = five_urls"
    by (simp add: five_collect five_collected_def)
  have n: "card five_urls = 5"
    using distinct_card [OF five_order_distinct] by (simp add: five_urls_def five_order_def)
  have h: "os_makedirs five_system (OUTPUT_DIR five_config) () = Some ()
     \<and> (\<forall>filepath content out'. write_file five_system filepath content out' \<noteq> None)
     \<and> distinct (iter_set five_system (article_urls (collect five_library five_system
          five_config ())))
     \<and> set (iter_set five_system (article_urls (collect five_library five_system five_config ())))
         = article_urls (collect five_library five_system five_config ())
     \<and> (\<forall>url \<in> article_urls (collect five_library five_system five_config ()). \<forall>out'.
           truthy (response_text (fst (requests_get five_system url out')))
           \<and> is_text_page five_library (response_text (fst (requests_get five_system url out'))))"
    unfolding c five_iter
    using five_good five_order_distinct by (simp add: five_system_def five_urls_def)
  from t h have "\<exists>st. crawl five_library five_system five_config ()
      = Inr (min (MIN_PAGES five_config)
               (card (article_urls (collect five_library five_system five_config ()))), st)"
    by blast
  then have 1: "\<exists>st. crawl five_library five_system five_config () = Inr (min 10 5, st)"
    unfolding c n by simp
  from t five_run have "5 = length (saved_pages five_final)
      \<and> length (index_entries five_final) = 5"
    by blast
  with 1 five_run c n show ?thesis by simp
qed

lemma parse_listing:
  "path (ref_urlparse (str_lit ''https://media.kpfu.ru/news'')) = str_lit ''/news''"
  "path (ref_urlparse (str_lit ''https://media.kpfu.ru/news?page=1'')) = str_lit ''/news''"
  "path (ref_urlparse (str_lit ''https://media.kpfu.ru/news?page=2'')) = str_lit ''/news''"
  "path (ref_urlparse (str_lit ''https://media.kpfu.ru/news?page=3'')) = str_lit ''/news''"
  by (simp_all add: url_defs str_lit_def Let_def)


section \<open>The second run, step by step\<close>

lemma join_broken:
  "ref_urljoin (str_lit ''https://media.kpfu.ru'') broken_url = broken_url"
  by (simp add: url_defs str_lit_def Let_def broken_url_def)

lemma parse_broken:
  "ref_urlparse broken_url
     = \<lparr>scheme = str_lit ''http'', netloc = str_lit ''media.kpfu.ru'', path = str_lit ''/news/ab'',
        params = [], query = [], fragment = []\<rparr>"
  by (simp add: url_defs str_lit_def Let_def broken_url_def)

lemma broken_distinct:
  "broken_html \<noteq> article_html" "broken_html \<noteq> []"
  "broken_url \<noteq> str_lit ''https://media.kpfu.ru/news''"
  "broken_url \<noteq> str_lit ''https://media.kpfu.ru/news?page=1''"
  by (simp_all add: broken_html_def article_html_def broken_url_def str_lit_def)

lemma visit_broken:
  "visit_href broken_library settings broken_url links = insert broken_url links"
proof -
  have "\<not> startswith broken_url (str_lit ''#'')"
    "\<not> startswith broken_url (str_lit ''javascript:'')"
    by (simp_all add: startswith_def broken_url_def str_lit_def)
  then show ?thesis
    unfolding visit_href_def broken_library_def ref_library_sel settings_sel parse_base
      join_broken parse_broken Let_def
    by (simp add: str_lit_def startswith_def endswith_def blocked_extensions_def ascii_lower_def)
qed

lemma broken_extract:
  "extract_article_links broken_library settings broken_html = {broken_url}"
proof -
  have "BeautifulSoup broken_library broken_html = Doc [broken_url] (str_lit ''x'')"
    by (simp add: broken_library_def ref_parse_def)
  then show ?thesis
    unfolding extract_article_links_def Let_def
    by (simp add: broken_library_def visit_broken [unfolded broken_library_def])
qed

lemma broken_is_text: "is_text_page broken_library (Some article_html)"
  using broken_distinct html_distinct
  by (simp add: is_text_page_def broken_library_def ref_parse_def length_texts search_texts)

lemma broken_run: "crawl broken_library broken_system settings () = Inr (1, broken_final)"
proof -
  have u: "[1..<30 + 1] = 1 # [2..<31]"
    by (simp add: upt_rec)
  have p: "paginated_url settings (Suc 0) = str_lit ''https://media.kpfu.ru/news?page=1''"
    by (simp add: paginated_url_def str_nat.simps str_lit_def)
  have c: "collect broken_library broken_system settings ()
      = \<lparr>article_urls = {broken_url}, saved_pages = [], page_counter = 0, index_entries = [],
         world = \<lparr>outside = (), requested =
           [(str_lit ''https://media.kpfu.ru/news'', Response 200 broken_html),
            (str_lit ''https://media.kpfu.ru/news?page=1'', Response 404 [])],
           written = []\<rparr>\<rparr>"
    unfolding collect_def Let_def u
    using broken_distinct
    by (simp add: fetch_page_def broken_system_def p broken_extract raise_for_status_def
        str_lit_def del: upt_Suc)
  have i: "index_text [str_lit ''1'' @ [9] @ broken_url]
      = str_lit ''# File Number'' @ [9] @ str_lit ''URL'' @ [10]
        @ str_lit ''#============================================================'' @ [10]
        @ str_lit ''1'' @ [9] @ str_lit ''http://media.kpfu.ru/news/a'' @ [10]
        @ str_lit ''b'' @ [10]"
    by (simp add: index_text_def index_header_def replicate_eval broken_url_def str_lit_def)
  have s: "os_makedirs broken_system dir out = Some out"
    "write_file broken_system filepath content out = Some out"
    "script_dir broken_system = str_lit ''/srv/crawler''"
    "iter_set broken_system {broken_url} = [broken_url]"
    "requests_get broken_system broken_url out = (Response 200 article_html, out)"
    for dir filepath content out
    using broken_distinct by (simp_all add: broken_system_def)
  have f: "frontier broken_library broken_system settings [broken_url]
      \<lparr>article_urls = {broken_url}, saved_pages = [], page_counter = 0, index_entries = [],
         world = \<lparr>outside = (), requested =
           [(str_lit ''https://media.kpfu.ru/news'', Response 200 broken_html),
            (str_lit ''https://media.kpfu.ru/news?page=1'', Response 404 [])],
           written = []\<rparr>\<rparr>
      = Inr (broken_final\<lparr>world := (world broken_final)\<lparr>written :=
          butlast (written (world broken_final))\<rparr>\<rparr>)"
    using html_distinct
    by (simp add: fetch_page_def save_page_def s broken_is_text raise_for_status_def
        page_filenames page_paths index_entries_eval broken_final_def Let_def)
  show ?thesis
    using i
    by (simp add: crawl_def Let_def s c f write_index_def broken_final_def page_paths
        del: frontier.simps)
qed


end
